theory Spec2Isabelle
  imports Main "HOL-Library.Multiset" "HOL-Library.List_Lexorder" "HOL-Library.Char_ord"
begin

section \<open>Python values and exceptions\<close>

text \<open>
  The exceptions the modelled code can raise.  A function that can raise returns
  \<open>pyerr + 'a\<close>, with \<open>Inl\<close> for the exception.
\<close>

datatype pyerr = KeyError | ValueError | AttributeError | IndexError | ZeroDivisionError
  | TypeError | OSError

text \<open>
  The outcome of \<open>subprocess.run\<close>: the exit status of the child, or an exception
  raised by the call itself (the binary is missing, the fork fails).
\<close>

datatype proc = Exit int | Raised

section \<open>SSHSessionManager (core/session\_manager.py)\<close>

text \<open>
  The manager's state is the set \<open>active_sessions\<close>.  Every subprocess the manager
  runs is recorded as an event; a spawn of the master carries the value of
  \<open>active_sessions\<close> at the moment the subprocess is run.
\<close>

datatype event = Spawn string "string set" | ExitCmd string

text \<open>
  \<open>start_session\<close>.  The argument \<open>out\<close> is the outcome the \<open>ssh -MNf\<close> subprocess
  has if it is run.  The result is the returned boolean, the new \<open>active_sessions\<close>
  and the subprocesses run.
\<close>

definition start_session :: "string \<Rightarrow> proc \<Rightarrow> string set \<Rightarrow> bool \<times> string set \<times> event list" where
  "start_session hostname out active =
     (if hostname \<in> active then (True, active, [])
      else
        let active1 = insert hostname active in
        (case out of
           Exit rc \<Rightarrow>
             if rc \<noteq> 0 then (False, active1 - {hostname}, [Spawn hostname active1])
             else (True, active1, [Spawn hostname active1])
         | Raised \<Rightarrow> (False, active1 - {hostname}, [Spawn hostname active1])))"

text \<open>
  \<open>stop_session\<close>.  The outcome of \<open>ssh -O exit\<close> is only logged, so it is not an
  argument.
\<close>

definition stop_session :: "string \<Rightarrow> string set \<Rightarrow> string set \<times> event list" where
  "stop_session hostname active =
     (if hostname \<notin> active then (active, [])
      else (active - {hostname}, [ExitCmd hostname]))"

section \<open>NodeManager state (core/node\_manager.py)\<close>

datatype health = Healthy | Restarted | Error

text \<open>
  A Python dict with string keys is an association list in insertion order; the values
  of a node's fields are strings or \<open>None\<close>.  A node object is its identity (what
  \<open>id(n)\<close> returns) together with its dict.
\<close>

datatype pyval = PNone | PStr string

type_synonym pydict = "(string \<times> pyval) list"

type_synonym node = "nat \<times> pydict"

record manager =
  node_cache :: "node list"
  session_health :: "string \<rightharpoonup> health"
  active_sessions :: "string set"

text \<open>
  \<open>check_and_manage_ssh_session\<close>.  The three \<open>proc\<close> arguments are the outcomes of
  the subprocesses in the order the source runs them: the first start, the
  \<open>ssh -O check\<close>, and the second start after the stop.  The check is not inside a
  \<open>try\<close>, so an exception of its \<open>subprocess.run\<close> leaves the function.
\<close>

definition check_and_manage_ssh_session ::
  "string \<Rightarrow> proc \<Rightarrow> proc \<Rightarrow> proc \<Rightarrow> manager \<Rightarrow> (pyerr + bool) \<times> manager" where
  "check_and_manage_ssh_session hostname o_start o_check o_restart m =
     (let (_, a1, _) = start_session hostname o_start (active_sessions m);
          m1 = m\<lparr>active_sessions := a1\<rparr>
      in case o_check of
           Raised \<Rightarrow> (Inl OSError, m1)
         | Exit rc \<Rightarrow>
             if rc = 0
             then (Inr True, m1\<lparr>session_health := (session_health m1)(hostname \<mapsto> Healthy)\<rparr>)
             else
               let (a2, _) = stop_session hostname (active_sessions m1);
                   (_, a3, _) = start_session hostname o_restart a2
               in (Inr False,
                   m1\<lparr>active_sessions := a3,
                      session_health := (session_health m1)(hostname \<mapsto> Restarted)\<rparr>))"

text \<open>The manager as \<open>NodeManager.__init__\<close> leaves it.\<close>

definition init_manager :: manager where
  "init_manager = \<lparr>node_cache = [], session_health = Map.empty, active_sessions = {}\<rparr>"

section \<open>Strings\<close>

text \<open>
  \<open>str.lower()\<close> and \<open>str.upper()\<close> on the ASCII letters; every other character
  is left as it is.
\<close>

definition lower_char :: "char \<Rightarrow> char" where
  "lower_char c =
     (case map_of (zip ''ABCDEFGHIJKLMNOPQRSTUVWXYZ'' ''abcdefghijklmnopqrstuvwxyz'') c of
        Some d \<Rightarrow> d | None \<Rightarrow> c)"

definition upper_char :: "char \<Rightarrow> char" where
  "upper_char c =
     (case map_of (zip ''abcdefghijklmnopqrstuvwxyz'' ''ABCDEFGHIJKLMNOPQRSTUVWXYZ'') c of
        Some d \<Rightarrow> d | None \<Rightarrow> c)"

definition lower :: "string \<Rightarrow> string" where
  "lower s = map lower_char s"

definition upper :: "string \<Rightarrow> string" where
  "upper s = map upper_char s"

section \<open>Filter fields and sampling (core/node\_manager.py)\<close>

text \<open>
  \<open>NODE_FILTER_FIELDS\<close>: the query parameter and the key of the node dict it reads
  (\<open>None\<close> for \<open>node\<close>, which is read from the hostname).
\<close>

definition NODE_FILTER_FIELDS :: "(string \<times> string option) list" where
  "NODE_FILTER_FIELDS =
     [(''node'', None), (''asn'', Some ''asn''), (''city'', Some ''city''),
      (''countrycode'', Some ''countrycode''), (''continent'', Some ''continent''),
      (''company'', Some ''company'')]"

text \<open>
  \<open>_node_field_value\<close>.  \<open>node["hostname"]\<close> raises \<open>KeyError\<close> when the key is
  missing and \<open>.split\<close> raises \<open>AttributeError\<close> on \<open>None\<close>;
  \<open>NODE_FILTER_FIELDS[field]\<close> raises \<open>KeyError\<close> on an unknown field;
  \<open>node.get(k) or ""\<close> is the empty string when the key is missing or its value is
  \<open>None\<close> or empty.
\<close>

definition node_field_value :: "node \<Rightarrow> string \<Rightarrow> pyerr + string" where
  "node_field_value n field =
     (if field = ''node'' then
        (case map_of (snd n) ''hostname'' of
           None \<Rightarrow> Inl KeyError
         | Some PNone \<Rightarrow> Inl AttributeError
         | Some (PStr h) \<Rightarrow> Inr (takeWhile (\<lambda>c. c \<noteq> CHR ''.'') h))
      else
        (case map_of NODE_FILTER_FIELDS field of
           None \<Rightarrow> Inl KeyError
         | Some None \<Rightarrow> Inr []
         | Some (Some k) \<Rightarrow>
             (case map_of (snd n) k of
                Some (PStr v) \<Rightarrow> Inr v
              | _ \<Rightarrow> Inr [])))"

text \<open>
  The random module.  The generator is an explicit list of draws; a draw picks the
  element at position \<open>r mod length\<close> of what is left and removes it, so every
  selection of \<open>k\<close> distinct positions, in every order, is the result for some list
  of draws.
\<close>

type_synonym rng = "nat list"

fun draw :: "rng \<Rightarrow> 'a list \<Rightarrow> nat \<Rightarrow> 'a list \<times> rng" where
  "draw rs xs 0 = ([], rs)"
| "draw rs xs (Suc k) =
     (if xs = [] then ([], rs)
      else
        let r = (case rs of [] \<Rightarrow> 0 | r # _ \<Rightarrow> r);
            i = r mod length xs;
            (ys, rs') = draw (tl rs) (take i xs @ drop (Suc i) xs) k
        in (xs ! i # ys, rs'))"

text \<open>\<open>random.sample(population, k)\<close> raises \<open>ValueError\<close> unless \<open>0 <= k <= len\<close>.\<close>

definition random_sample :: "rng \<Rightarrow> 'a list \<Rightarrow> int \<Rightarrow> (pyerr + 'a list) \<times> rng" where
  "random_sample rs population k =
     (if k < 0 \<or> int (length population) < k then (Inl ValueError, rs)
      else let (ys, rs') = draw rs population (nat k) in (Inr ys, rs'))"

text \<open>\<open>random.shuffle(xs)\<close>.\<close>

definition shuffle :: "rng \<Rightarrow> 'a list \<Rightarrow> 'a list \<times> rng" where
  "shuffle rs xs = draw rs xs (length xs)"

text \<open>
  A filter map is a dict from field name to the set of allowed values, in insertion
  order.
\<close>

type_synonym filters = "(string \<times> string set) list"

type_synonym groups = "(string list \<times> node list) list"

definition balance_fields :: "filters \<Rightarrow> string list" where
  "balance_fields fs = map fst (filter (\<lambda>(f, vals). card vals > 1) fs)"

text \<open>\<open>tuple(_node_field_value(node, f).lower() for f in balance_fields)\<close>\<close>

fun node_key :: "node \<Rightarrow> string list \<Rightarrow> pyerr + string list" where
  "node_key n [] = Inr []"
| "node_key n (f # fs) =
     (case node_field_value n f of
        Inl e \<Rightarrow> Inl e
      | Inr v \<Rightarrow> (case node_key n fs of Inl e \<Rightarrow> Inl e | Inr vs \<Rightarrow> Inr (lower v # vs)))"

text \<open>\<open>groups.setdefault(key, []).append(node)\<close>\<close>

fun setdefault_append :: "'k \<Rightarrow> 'v \<Rightarrow> ('k \<times> 'v list) list \<Rightarrow> ('k \<times> 'v list) list" where
  "setdefault_append k v [] = [(k, [v])]"
| "setdefault_append k v ((k', vs) # g) =
     (if k' = k then (k', vs @ [v]) # g else (k', vs) # setdefault_append k v g)"

fun group_nodes :: "string list \<Rightarrow> node list \<Rightarrow> groups \<Rightarrow> pyerr + groups" where
  "group_nodes bf [] g = Inr g"
| "group_nodes bf (n # ns) g =
     (case node_key n bf of
        Inl e \<Rightarrow> Inl e
      | Inr key \<Rightarrow> group_nodes bf ns (setdefault_append key n g))"

text \<open>
  The quota dict: \<open>base_quota + (1 if i < remainder else 0)\<close> for the \<open>i\<close>-th key.
\<close>

definition make_quotas :: "string list list \<Rightarrow> int \<Rightarrow> int \<Rightarrow> (string list \<times> int) list" where
  "make_quotas group_keys base_quota remainder =
     map (\<lambda>(i, key). (key, base_quota + (if int i < remainder then 1 else 0)))
       (zip [0..<length group_keys] group_keys)"

text \<open>
  The loop over the shuffled keys, with the accumulators \<open>result\<close> and \<open>shortfall\<close>.
\<close>

fun take_from_groups ::
  "rng \<Rightarrow> string list list \<Rightarrow> groups \<Rightarrow> (string list \<times> int) list \<Rightarrow> node list \<Rightarrow> int
     \<Rightarrow> (pyerr + node list \<times> int) \<times> rng" where
  "take_from_groups rs [] grps quotas result shortfall = (Inr (result, shortfall), rs)"
| "take_from_groups rs (key # keys) grps quotas result shortfall =
     (case map_of grps key of
        None \<Rightarrow> (Inl KeyError, rs)
      | Some grp \<Rightarrow>
          (case map_of quotas key of
             None \<Rightarrow> (Inl KeyError, rs)
           | Some quota \<Rightarrow>
               let take = min quota (int (length grp)) in
               (case random_sample rs grp take of
                  (Inl e, rs') \<Rightarrow> (Inl e, rs')
                | (Inr chosen, rs') \<Rightarrow>
                    take_from_groups rs' keys grps quotas (result @ chosen)
                      (shortfall + (quota - take)))))"

text \<open>\<open>_balanced_sample\<close>.  \<open>divmod\<close> by zero raises \<open>ZeroDivisionError\<close>.\<close>

definition balanced_sample ::
  "node list \<Rightarrow> int \<Rightarrow> filters \<Rightarrow> rng \<Rightarrow> (pyerr + node list) \<times> rng" where
  "balanced_sample nodes limit fs rs =
     (let bf = balance_fields fs in
      if bf = [] then random_sample rs nodes limit
      else
        case group_nodes bf nodes [] of
          Inl e \<Rightarrow> (Inl e, rs)
        | Inr grps \<Rightarrow>
            let (group_keys, rs1) = shuffle rs (map fst grps) in
            if group_keys = [] then (Inl ZeroDivisionError, rs1)
            else
              let base_quota = limit div int (length group_keys);
                  remainder = limit mod int (length group_keys);
                  quotas = make_quotas group_keys base_quota remainder
              in (case take_from_groups rs1 group_keys grps quotas [] 0 of
                    (Inl e, rs2) \<Rightarrow> (Inl e, rs2)
                  | (Inr (result, shortfall), rs2) \<Rightarrow>
                      if shortfall > 0 then
                        let selected = set (map fst result);
                            remaining = filter (\<lambda>n. fst n \<notin> selected) nodes
                        in if remaining \<noteq> [] then
                             (case random_sample rs2 remaining
                                     (min shortfall (int (length remaining))) of
                                (Inl e, rs3) \<Rightarrow> (Inl e, rs3)
                              | (Inr extra, rs3) \<Rightarrow> (Inr (result @ extra), rs3))
                           else (Inr result, rs2)
                      else (Inr result, rs2)))"

text \<open>
  A list comprehension whose condition can raise: the first exception leaves the
  comprehension.
\<close>

fun filter_raise :: "('a \<Rightarrow> pyerr + bool) \<Rightarrow> 'a list \<Rightarrow> pyerr + 'a list" where
  "filter_raise p [] = Inr []"
| "filter_raise p (x # xs) =
     (case p x of
        Inl e \<Rightarrow> Inl e
      | Inr b \<Rightarrow>
          (case filter_raise p xs of
             Inl e \<Rightarrow> Inl e
           | Inr ys \<Rightarrow> Inr (if b then x # ys else ys)))"

text \<open>\<open>self.session_health.get(n["hostname"]) == "healthy"\<close>\<close>

definition is_healthy :: "(string \<rightharpoonup> health) \<Rightarrow> node \<Rightarrow> pyerr + bool" where
  "is_healthy sh n =
     (case map_of (snd n) ''hostname'' of
        None \<Rightarrow> Inl KeyError
      | Some PNone \<Rightarrow> Inr False
      | Some (PStr h) \<Rightarrow> Inr (sh h = Some Healthy))"

text \<open>\<open>_node_field_value(n, field).lower() in allowed_values\<close>\<close>

definition passes_filter :: "string \<Rightarrow> string set \<Rightarrow> node \<Rightarrow> pyerr + bool" where
  "passes_filter field allowed n =
     (case node_field_value n field of
        Inl e \<Rightarrow> Inl e
      | Inr v \<Rightarrow> Inr (lower v \<in> allowed))"

text \<open>The loop \<open>for field, allowed_values in filters.items()\<close>.\<close>

fun apply_filters :: "filters \<Rightarrow> node list \<Rightarrow> pyerr + node list" where
  "apply_filters [] healthy = Inr healthy"
| "apply_filters ((field, allowed) # fs) healthy =
     (case filter_raise (passes_filter field allowed) healthy of
        Inl e \<Rightarrow> Inl e
      | Inr healthy' \<Rightarrow> apply_filters fs healthy')"

text \<open>
  \<open>fetch_healthy_nodes\<close>.  \<open>limit\<close> is \<open>None\<close> or an integer; a filter map that is
  \<open>None\<close> or empty is the empty list.
\<close>

definition fetch_healthy_nodes ::
  "manager \<Rightarrow> int option \<Rightarrow> filters \<Rightarrow> rng \<Rightarrow> (pyerr + node list) \<times> rng" where
  "fetch_healthy_nodes m limit fs rs =
     (case filter_raise (is_healthy (session_health m)) (node_cache m) of
        Inl e \<Rightarrow> (Inl e, rs)
      | Inr healthy0 \<Rightarrow>
          (case (if fs \<noteq> [] then apply_filters fs healthy0 else Inr healthy0) of
             Inl e \<Rightarrow> (Inl e, rs)
           | Inr healthy \<Rightarrow>
               (case limit of
                  None \<Rightarrow> (Inr healthy, rs)
                | Some l \<Rightarrow>
                    if l < int (length healthy) then
                      (if fs \<noteq> [] then balanced_sample healthy l fs rs
                       else random_sample rs healthy l)
                    else (Inr healthy, rs))))"

text \<open>A roster of four node objects, used to run the functions on.\<close>

definition ex_nodes :: "node list" where
  "ex_nodes =
     [(0, [(''hostname'', PStr ''a.example''), (''continent'', PStr ''Europe'')]),
      (1, [(''hostname'', PStr ''b.example''), (''continent'', PStr ''Europe'')]),
      (2, [(''hostname'', PStr ''c.example''), (''continent'', PStr ''Asia'')]),
      (3, [(''hostname'', PStr ''d.example''), (''continent'', PNone)])]"


definition ex_manager :: manager where
  "ex_manager =
     \<lparr>node_cache = ex_nodes,
      session_health = map_of [(''a.example'', Healthy), (''b.example'', Healthy),
                               (''c.example'', Restarted), (''d.example'', Healthy)],
      active_sessions = {''a.example'', ''b.example'', ''c.example'', ''d.example''}\<rparr>"


section \<open>GeoEnricher and the catalog records (core/geo.py, core/node\_manager.py)\<close>

text \<open>
  The tables of the \<open>country_converter\<close> package are not part of the repository:
  \<open>_cc.convert(alpha2, src="ISO2", to=...)\<close> is a parameter, one function for each
  target classification.
\<close>

record coco =
  to_continent :: "string \<Rightarrow> string"
  to_UNregion :: "string \<Rightarrow> string"
  to_name_short :: "string \<Rightarrow> string"

definition get_continent :: "coco \<Rightarrow> string \<Rightarrow> string" where
  "get_continent cc alpha2 =
     (let result = to_continent cc alpha2 in
      if result = ''not found'' then ''Unknown''
      else if result = ''America'' then
        (let region = to_UNregion cc alpha2 in
         if region = ''South America'' then ''South America'' else ''North America'')
      else result)"

definition get_country_name :: "coco \<Rightarrow> string \<Rightarrow> string" where
  "get_country_name cc alpha2 =
     (let result = to_name_short cc alpha2 in
      if result \<noteq> ''not found'' then result else alpha2)"

text \<open>\<open>str(i)\<close> for an integer: its decimal digits, with a minus sign when negative.\<close>

fun nat_digits :: "nat \<Rightarrow> string" where
  "nat_digits n =
     (if n < 10 then [''0123456789'' ! n]
      else nat_digits (n div 10) @ [''0123456789'' ! (n mod 10)])"

definition str_int :: "int \<Rightarrow> string" where
  "str_int i = (if i < 0 then CHR ''-'' # nat_digits (nat (- i)) else nat_digits (nat i))"

text \<open>
  A raw record of the upstream catalog, with the fields and types of its interface:
  strings for \<open>hostname\<close> and \<open>countrycode\<close>, an integer \<open>asn\<close>, a string or
  \<open>null\<close> for \<open>city\<close>, two booleans, and a \<open>participant\<close> id that may be missing.
  The participant map takes an id to the company, a string or \<open>null\<close>.
\<close>

record raw_node =
  raw_hostname :: string
  raw_asn :: int
  raw_city :: pyval
  raw_countrycode :: string
  alive_ipv4 :: bool
  alive_ipv6 :: bool
  participant :: "int option"

text \<open>
  \<open>filter_api_nodes\<close>: the loop over \<open>raw_nodes\<close>, appending to \<open>filtered\<close>.
  \<open>participants.get(n.get("participant"), "Unknown")\<close> looks \<open>None\<close> up when the
  record has no participant; no id of the map is \<open>None\<close>.
\<close>

fun filter_api_nodes_loop ::
  "coco \<Rightarrow> (int \<rightharpoonup> pyval) \<Rightarrow> raw_node list \<Rightarrow> pydict list \<Rightarrow> pydict list" where
  "filter_api_nodes_loop gc participants [] filtered = filtered"
| "filter_api_nodes_loop gc participants (n # raw_nodes) filtered =
     (if \<not> (alive_ipv4 n \<and> alive_ipv6 n)
      then filter_api_nodes_loop gc participants raw_nodes filtered
      else
        let cc = upper (raw_countrycode n);
            continent = get_continent gc cc;
            company = (case participant n of
                         None \<Rightarrow> PStr ''Unknown''
                       | Some p \<Rightarrow>
                           (case participants p of None \<Rightarrow> PStr ''Unknown'' | Some c \<Rightarrow> c))
        in filter_api_nodes_loop gc participants raw_nodes
             (filtered @
              [[(''hostname'', PStr (raw_hostname n)),
                (''asn'', PStr (str_int (raw_asn n))),
                (''city'', raw_city n),
                (''countrycode'', PStr cc),
                (''continent'', PStr continent),
                (''company'', company)]]))"

definition filter_api_nodes :: "coco \<Rightarrow> raw_node list \<Rightarrow> (int \<rightharpoonup> pyval) \<Rightarrow> pydict list" where
  "filter_api_nodes gc raw_nodes participants = filter_api_nodes_loop gc participants raw_nodes []"

section \<open>The probe handler (app/routes.py)\<close>

text \<open>
  The whitespace of \<open>str.strip()\<close> and \<open>int()\<close> among the characters below 256.
\<close>

definition is_space :: "char \<Rightarrow> bool" where
  "is_space c \<longleftrightarrow>
     of_char c \<in> {9::nat, 10, 11, 12, 13, 28, 29, 30, 31, 32, 133, 160}"

definition strip :: "string \<Rightarrow> string" where
  "strip s = rev (dropWhile is_space (rev (dropWhile is_space s)))"

definition is_digit :: "char \<Rightarrow> bool" where
  "is_digit c \<longleftrightarrow> c \<in> set ''0123456789''"

definition digit_val :: "char \<Rightarrow> nat" where
  "digit_val c = of_char c - 48"

text \<open>
  The digits of an \<open>int()\<close> literal: at least one digit, and single underscores only
  between two digits.  The flag says whether the previous character was a digit.
\<close>

fun int_body :: "string \<Rightarrow> bool \<Rightarrow> nat \<Rightarrow> nat option" where
  "int_body [] prev acc = (if prev then Some acc else None)"
| "int_body (c # cs) prev acc =
     (if is_digit c then int_body cs True (10 * acc + digit_val c)
      else if c = CHR ''_'' \<and> prev then int_body cs False acc
      else None)"

text \<open>\<open>int(s)\<close> for a string: \<open>None\<close> stands for \<open>ValueError\<close>.\<close>

definition py_int :: "string \<Rightarrow> int option" where
  "py_int s =
     (case strip s of
        [] \<Rightarrow> None
      | c # cs \<Rightarrow>
          if c = CHR ''-'' then map_option (\<lambda>n. - int n) (int_body cs False 0)
          else if c = CHR ''+'' then map_option int (int_body cs False 0)
          else map_option int (int_body (c # cs) False 0))"

text \<open>\<open>s.split(sep)\<close> for a separator of one character.\<close>

fun split_on :: "char \<Rightarrow> string \<Rightarrow> string list" where
  "split_on sep [] = [[]]"
| "split_on sep (c # cs) =
     (if c = sep then [] # split_on sep cs
      else (case split_on sep cs of [] \<Rightarrow> [[c]] | w # ws \<Rightarrow> (c # w) # ws))"

text \<open>
  The filters built from the query: for every field of \<open>NODE_FILTER_FIELDS\<close> with a
  non-empty value, the set of its comma-separated values, stripped and lower-cased.
\<close>

definition build_filters :: "(string \<rightharpoonup> string) \<Rightarrow> filters" where
  "build_filters args =
     concat (map (\<lambda>field.
        case args field of
          None \<Rightarrow> []
        | Some v \<Rightarrow>
            if v = [] then []
            else [(field, set (map (\<lambda>v. lower (strip v)) (split_on CHR '','' v)))])
       (map fst NODE_FILTER_FIELDS))"

text \<open>
  \<open>probe\<close>, as far as its status code.  \<open>resolves\<close> is \<open>is_valid_target\<close> (the system
  resolver); \<open>args\<close> is \<open>request.args\<close>.  The result is the status of the response
  the handler returns, or the exception that leaves the handler, which the framework
  answers with status 500.  The pings of the fan-out do not change the status: the
  handler only reads the four fields of each node with \<open>node_info[...]\<close>, which raises
  \<open>KeyError\<close> on a missing key.
\<close>

definition probe :: "(string \<Rightarrow> bool) \<Rightarrow> manager \<Rightarrow> (string \<rightharpoonup> string) \<Rightarrow> rng \<Rightarrow> pyerr + nat" where
  "probe resolves m args rs =
     (case args ''target'' of
        None \<Rightarrow> Inr 400
      | Some t0 \<Rightarrow>
          if t0 = [] then Inr 400
          else
            let target = strip (takeWhile (\<lambda>c. c \<noteq> CHR ''?'') t0) in
            if \<not> resolves target then Inr 400
            else
              (case (case args ''limit'' of
                       None \<Rightarrow> Inr None
                     | Some limit_param \<Rightarrow>
                         (case py_int limit_param of
                            None \<Rightarrow> Inl ValueError
                          | Some l \<Rightarrow> Inr (Some l))) of
                 Inl e \<Rightarrow> Inr 400
               | Inr limit \<Rightarrow>
                   (case fst (fetch_healthy_nodes m limit (build_filters args) rs) of
                      Inl e \<Rightarrow> Inl e
                    | Inr nodes \<Rightarrow>
                        if nodes = [] then Inr 503
                        else if list_all (\<lambda>n. list_all (\<lambda>k. map_of (snd n) k \<noteq> None)
                                   [''asn'', ''city'', ''countrycode'', ''continent'']) nodes
                        then Inr 200
                        else Inl KeyError)))"

text \<open>A small converter table, used to run the functions on.\<close>

definition ex_coco :: coco where
  "ex_coco = \<lparr>to_continent = (\<lambda>c. if c = ''NL'' then ''Europe'' else if c = ''BR'' then ''America'' else ''not found''),
              to_UNregion = (\<lambda>c. if c = ''BR'' then ''South America'' else ''not found''),
              to_name_short = (\<lambda>c. if c = ''NL'' then ''Netherlands'' else ''not found'')\<rparr>"


section \<open>Probe Executor (core/ping.py)\<close>

text \<open>\<open>sub in s\<close> and \<open>s.startswith(p)\<close>.\<close>

definition startswith :: "string \<Rightarrow> string \<Rightarrow> bool" where
  "startswith s p \<longleftrightarrow> take (length p) s = p"

fun contains :: "string \<Rightarrow> string \<Rightarrow> bool" where
  "contains [] sub = (sub = [])"
| "contains (c # cs) sub = (startswith (c # cs) sub \<or> contains cs sub)"

text \<open>
  \<open>str.splitlines()\<close>: a line ends at a line feed, a carriage return (with a
  following line feed), a vertical tab, a form feed, one of the separators
  \<open>0x1c\<close>--\<open>0x1e\<close> or \<open>0x85\<close>; text after the last boundary is a line when it is
  not empty.  The second argument is the current line, reversed.
\<close>

definition is_linebreak :: "char \<Rightarrow> bool" where
  "is_linebreak c \<longleftrightarrow> of_char c \<in> {10::nat, 11, 12, 13, 28, 29, 30, 133}"

fun splitlines_acc :: "string \<Rightarrow> string \<Rightarrow> string list" where
  "splitlines_acc [] cur = (if cur = [] then [] else [rev cur])"
| "splitlines_acc [c] cur =
     (if is_linebreak c then [rev cur] else [rev (c # cur)])"
| "splitlines_acc (c # d # cs) cur =
     (if c = CHR 0x0D \<and> d = CHR 0x0A then rev cur # splitlines_acc cs []
      else if is_linebreak c then rev cur # splitlines_acc (d # cs) []
      else splitlines_acc (d # cs) (c # cur))"

definition splitlines :: "string \<Rightarrow> string list" where
  "splitlines s = splitlines_acc s []"

text \<open>
  \<open>str.split()\<close> without a separator: the maximal runs of characters that are not
  whitespace.  The second argument is the current word, reversed.
\<close>

fun split_ws_acc :: "string \<Rightarrow> string \<Rightarrow> string list" where
  "split_ws_acc [] cur = (if cur = [] then [] else [rev cur])"
| "split_ws_acc (c # cs) cur =
     (if is_space c then (if cur = [] then split_ws_acc cs [] else rev cur # split_ws_acc cs [])
      else split_ws_acc cs (c # cur))"

definition split_ws :: "string \<Rightarrow> string list" where
  "split_ws s = split_ws_acc s []"

text \<open>\<open>xs[i]\<close> for an index that is not negative.\<close>

definition index :: "'a list \<Rightarrow> nat \<Rightarrow> pyerr + 'a" where
  "index xs i = (if i < length xs then Inr (xs ! i) else Inl IndexError)"

text \<open>
  \<open>float(s)\<close>.  A float is kept as the literal it was read from, without the
  surrounding whitespace; what is modelled is which strings \<open>float\<close> accepts: an
  optional sign, then \<open>inf\<close>, \<open>infinity\<close> or \<open>nan\<close> in any case, or digits (single
  underscores between digits allowed) with an optional fraction and an optional
  exponent.  \<open>digitpart_rest\<close> removes the longest digit part from the front.
\<close>

fun digitpart_tail :: "string \<Rightarrow> string" where
  "digitpart_tail [] = []"
| "digitpart_tail [c] = (if is_digit c then [] else [c])"
| "digitpart_tail (c # d # cs) =
     (if is_digit c then digitpart_tail (d # cs)
      else if c = CHR ''_'' \<and> is_digit d then digitpart_tail (d # cs)
      else c # d # cs)"

definition digitpart_rest :: "string \<Rightarrow> string option" where
  "digitpart_rest s =
     (case s of
        [] \<Rightarrow> None
      | c # cs \<Rightarrow> if is_digit c then Some (digitpart_tail cs) else None)"

definition exponent_ok :: "string \<Rightarrow> bool" where
  "exponent_ok s =
     (case s of
        [] \<Rightarrow> True
      | c # cs \<Rightarrow>
          if c = CHR ''e'' \<or> c = CHR ''E'' then
            (case cs of
               [] \<Rightarrow> False
             | d # ds \<Rightarrow>
                 digitpart_rest (if d = CHR ''+'' \<or> d = CHR ''-'' then ds else d # ds) = Some [])
          else False)"

definition float_body_ok :: "string \<Rightarrow> bool" where
  "float_body_ok s =
     (if lower s \<in> {''inf'', ''infinity'', ''nan''} then True
      else
        (case s of
           [] \<Rightarrow> False
         | c # cs \<Rightarrow>
             if c = CHR ''.'' then
               (case digitpart_rest cs of None \<Rightarrow> False | Some r \<Rightarrow> exponent_ok r)
             else
               (case digitpart_rest (c # cs) of
                  None \<Rightarrow> False
                | Some r \<Rightarrow>
                    (case r of
                       [] \<Rightarrow> True
                     | p # ps \<Rightarrow>
                         if p = CHR ''.'' then
                           (case digitpart_rest ps of
                              None \<Rightarrow> exponent_ok ps
                            | Some r' \<Rightarrow> exponent_ok r')
                         else exponent_ok (p # ps)))))"

definition py_float :: "string \<Rightarrow> pyerr + string" where
  "py_float s =
     (let t = strip s;
          body = (case t of
                    [] \<Rightarrow> []
                  | c # cs \<Rightarrow> if c = CHR ''+'' \<or> c = CHR ''-'' then cs else c # cs)
      in if float_body_ok body then Inr t else Inl ValueError)"

text \<open>
  \<open>min_rtt, avg_rtt, max_rtt, mdev_rtt = map(float, parts.split('/'))\<close>: a
  \<open>ValueError\<close> when a part is not a float or there are not exactly four parts.
\<close>

fun floats :: "string list \<Rightarrow> pyerr + string list" where
  "floats [] = Inr []"
| "floats (p # ps) =
     (case py_float p of
        Inl e \<Rightarrow> Inl e
      | Inr f \<Rightarrow> (case floats ps of Inl e \<Rightarrow> Inl e | Inr fs \<Rightarrow> Inr (f # fs)))"

record rtt_stats =
  rtt_min :: string
  rtt_avg :: string
  rtt_max :: string
  rtt_mdev :: string

definition unpack4 :: "string list \<Rightarrow> pyerr + rtt_stats" where
  "unpack4 fs =
     (case fs of
        [a, b, c, d] \<Rightarrow> Inr \<lparr>rtt_min = a, rtt_avg = b, rtt_max = c, rtt_mdev = d\<rparr>
      | _ \<Rightarrow> Inl ValueError)"

text \<open>
  The two statements that parse the line:
  \<open>parts = rtt_line.split('=')[1].split()[0]\<close> and the unpacking of the floats.
\<close>

definition parse_rtt_line :: "string \<Rightarrow> pyerr + rtt_stats" where
  "parse_rtt_line rtt_line =
     (case index (split_on CHR ''='' rtt_line) 1 of
        Inl e \<Rightarrow> Inl e
      | Inr seg \<Rightarrow>
          (case index (split_ws seg) 0 of
             Inl e \<Rightarrow> Inl e
           | Inr parts \<Rightarrow>
               (case floats (split_on CHR ''/'' parts) of
                  Inl e \<Rightarrow> Inl e
                | Inr fs \<Rightarrow> unpack4 fs)))"

text \<open>
  What \<open>subprocess.check_output\<close> does: it returns the output of a command that
  exits with status zero within the timeout, or raises \<open>TimeoutExpired\<close>,
  \<open>CalledProcessError\<close> (non-zero exit) or another exception.
\<close>

datatype check_output = Output string | TimeoutExpired | CalledProcessError | OtherException

datatype status = Ok rtt_stats | No_rtt | Ssh_timeout | Ping_error | Exception

text \<open>
  \<open>ping_from_node\<close>: the status (with the stats for \<open>ok\<close>) of the returned triple;
  its first component is the node again.  An exception of the parsing is caught by
  \<open>except Exception\<close>.
\<close>

definition ping_from_node :: "check_output \<Rightarrow> status" where
  "ping_from_node out =
     (case out of
        Output output \<Rightarrow>
          if contains output ''rtt'' then
            (case find (\<lambda>l. startswith l ''rtt'') (splitlines output) of
               None \<Rightarrow> No_rtt
             | Some rtt_line \<Rightarrow>
                 (case parse_rtt_line rtt_line of
                    Inl e \<Rightarrow> Exception
                  | Inr stats \<Rightarrow> Ok stats))
          else No_rtt
      | TimeoutExpired \<Rightarrow> Ssh_timeout
      | CalledProcessError \<Rightarrow> Ping_error
      | OtherException \<Rightarrow> Exception)"

text \<open>
  The shape of the spec, \<open>rtt ... = MIN/AVG/MAX/MDEV ...\<close>, in its words: the line is
  \<open>rtt\<close>, some text without an equals sign, the equals sign, whitespace, the four
  floats separated by slashes and forming one word (no whitespace, slash or equals
  sign inside a float; the word ends at the end of the line, at whitespace or at
  another equals sign), and the rest.
\<close>

definition rtt_shape :: "string \<Rightarrow> rtt_stats \<Rightarrow> bool" where
  "rtt_shape l st \<longleftrightarrow>
     (\<exists>pre ws post.
        l = ''rtt'' @ pre @ ''='' @ ws @ rtt_min st @ ''/'' @ rtt_avg st @ ''/'' @ rtt_max st
              @ ''/'' @ rtt_mdev st @ post
        \<and> CHR ''='' \<notin> set pre
        \<and> list_all is_space ws
        \<and> list_all (\<lambda>f. py_float f = Inr f
                         \<and> list_all (\<lambda>c. \<not> is_space c \<and> c \<noteq> CHR ''/'' \<and> c \<noteq> CHR ''='') f)
             [rtt_min st, rtt_avg st, rtt_max st, rtt_mdev st]
        \<and> (case post of [] \<Rightarrow> True | c # _ \<Rightarrow> is_space c \<or> c = CHR ''=''))"

section \<open>Session start\<close>

text \<open>
  C4.  \<open>start_session\<close> is idempotent and atomic on failure.  If the hostname is
  already in \<open>active_sessions\<close> it returns \<open>True\<close>, runs no subprocess and leaves the
  state as it is.  Otherwise it runs exactly one spawn, at a moment when the hostname
  is already recorded; it returns \<open>True\<close> if and only if the spawn exits with status
  zero, the hostname then staying recorded; and when the spawn fails (non-zero exit or
  exception) the state after the call equals the state before it.  A second call after
  a successful one returns \<open>True\<close> without a spawn.
\<close>

theorem start_session_idempotent_atomic:
  "(hostname \<in> active \<longrightarrow> start_session hostname out active = (True, active, []))
   \<and> (hostname \<notin> active \<longrightarrow>
        (\<exists>ok active'.
           start_session hostname out active = (ok, active', [Spawn hostname (insert hostname active)])
           \<and> (ok \<longleftrightarrow> out = Exit 0)
           \<and> (out = Exit 0 \<longrightarrow> active' = insert hostname active)
           \<and> (out \<noteq> Exit 0 \<longrightarrow> active' = active)))
   \<and> (start_session hostname out active = (True, active', evs) \<longrightarrow>
        start_session hostname out' active' = (True, active', []))"
  by (cases out) (auto simp: start_session_def Let_def split: if_splits)

theorem start_session_idempotent_atomic_witness:
  "start_session ''a.example'' (Exit 255) {''b.example''}
     = (False, {''b.example''}, [Spawn ''a.example'' {''a.example'', ''b.example''}])
   \<and> start_session ''b.example'' Raised {''b.example''} = (True, {''b.example''}, [])
   \<and> start_session ''a.example'' (Exit 0) {''b.example''}
     = (True, {''a.example'', ''b.example''}, [Spawn ''a.example'' {''a.example'', ''b.example''}])
   \<and> start_session ''a.example'' Raised {''a.example'', ''b.example''}
     = (True, {''a.example'', ''b.example''}, [])"
  using start_session_idempotent_atomic [of "''a.example''" "{''b.example''}" "Exit 255"]
    start_session_idempotent_atomic [of "''b.example''" "{''b.example''}" Raised]
    start_session_idempotent_atomic [of "''a.example''" "{''b.example''}" "Exit 0"
      "{''a.example'', ''b.example''}" "[Spawn ''a.example'' {''a.example'', ''b.example''}]" Raised]
  by (auto simp: start_session_def)

section \<open>Health labels and sessions\<close>

text \<open>
  C1.  The invariant "a hostname labelled \<open>healthy\<close> or \<open>restarted\<close> is in
  \<open>active_sessions\<close>" does not survive \<open>check_and_manage_ssh_session\<close> when the
  restart fails: from the initial manager, with the first start, the check and the
  restart all failing, the hostname is labelled \<open>restarted\<close> and is not in
  \<open>active_sessions\<close>.
\<close>

theorem check_and_manage_restart_fails:
  "(let (r, m) = check_and_manage_ssh_session ''a.example'' (Exit 255) (Exit 255) (Exit 255)
                   init_manager
    in r = Inr False
       \<and> session_health m ''a.example'' = Some Restarted
       \<and> ''a.example'' \<notin> active_sessions m)"
  by (simp add: check_and_manage_ssh_session_def start_session_def stop_session_def
      init_manager_def Let_def)

section \<open>Lemmas on comprehensions and the random module\<close>

lemma filter_raise_Inr:
  "filter_raise p xs = Inr ys \<Longrightarrow> ys = filter (\<lambda>x. p x = Inr True) xs"
  by (induction xs arbitrary: ys) (auto split: sum.splits if_splits)

lemma filter_raise_defined:
  "filter_raise p xs = Inr ys \<Longrightarrow> x \<in> set xs \<Longrightarrow> \<exists>b. p x = Inr b"
  by (induction xs arbitrary: ys) (auto split: sum.splits if_splits)

lemma filter_raise_total:
  "(\<And>x. x \<in> set xs \<Longrightarrow> \<exists>b. p x = Inr b) \<Longrightarrow> \<exists>ys. filter_raise p xs = Inr ys"
  by (induction xs) (fastforce split: sum.splits)+

lemma apply_filters_Inr:
  "apply_filters fs xs = Inr ys \<Longrightarrow>
     set ys \<subseteq> set xs \<and> length ys \<le> length xs
     \<and> (\<forall>n\<in>set ys. \<forall>(f, allowed)\<in>set fs. passes_filter f allowed n = Inr True)"
proof (induction fs arbitrary: xs)
  case Nil
  then show ?case by simp
next
  case (Cons fa fs)
  obtain f allowed where fa: "fa = (f, allowed)" by (cases fa)
  from Cons.prems fa obtain zs where
    zs: "filter_raise (passes_filter f allowed) xs = Inr zs" and rest: "apply_filters fs zs = Inr ys"
    by (auto split: sum.splits)
  have zs_eq: "zs = filter (\<lambda>n. passes_filter f allowed n = Inr True) xs"
    using zs by (rule filter_raise_Inr)
  from Cons.IH [OF rest] have ih: "set ys \<subseteq> set zs" "length ys \<le> length zs"
    "\<forall>n\<in>set ys. \<forall>(f, allowed)\<in>set fs. passes_filter f allowed n = Inr True" by auto
  have "length zs \<le> length xs" unfolding zs_eq by simp
  moreover have "set zs \<subseteq> set xs" unfolding zs_eq by auto
  moreover have "\<forall>n\<in>set ys. passes_filter f allowed n = Inr True"
    using ih(1) zs_eq by auto
  ultimately show ?case using ih fa by auto
qed

lemma apply_filters_total:
  "(\<And>n f allowed. n \<in> set xs \<Longrightarrow> (f, allowed) \<in> set fs \<Longrightarrow> \<exists>v. node_field_value n f = Inr v)
     \<Longrightarrow> \<exists>ys. apply_filters fs xs = Inr ys"
proof (induction fs arbitrary: xs)
  case Nil
  then show ?case by simp
next
  case (Cons fa fs)
  obtain f allowed where fa: "fa = (f, allowed)" by (cases fa)
  have "\<exists>zs. filter_raise (passes_filter f allowed) xs = Inr zs"
  proof (rule filter_raise_total)
    fix x assume "x \<in> set xs"
    with Cons.prems [of x f allowed] fa obtain v where "node_field_value x f = Inr v" by auto
    then show "\<exists>b. passes_filter f allowed x = Inr b" by (simp add: passes_filter_def)
  qed
  then obtain zs where zs: "filter_raise (passes_filter f allowed) xs = Inr zs" ..
  have sub: "set zs \<subseteq> set xs" using filter_raise_Inr [OF zs] by auto
  have "\<exists>ys. apply_filters fs zs = Inr ys"
  proof (rule Cons.IH)
    fix n f' allowed' assume "n \<in> set zs" "(f', allowed') \<in> set fs"
    then show "\<exists>v. node_field_value n f' = Inr v"
      using sub Cons.prems [of n f' allowed'] by auto
  qed
  then show ?case using zs fa by auto
qed

lemma draw_length: "length (fst (draw rs xs k)) = min k (length xs)"
proof (induction k arbitrary: rs xs)
  case 0
  then show ?case by simp
next
  case (Suc k)
  show ?case
  proof (cases "xs = []")
    case True
    then show ?thesis by simp
  next
    case False
    define i where "i = (case rs of [] \<Rightarrow> 0 | r # _ \<Rightarrow> r) mod length xs"
    have i: "i < length xs" using False by (simp add: i_def)
    have "length (take i xs @ drop (Suc i) xs) = length xs - 1" using i by simp
    with Suc.IH [of "tl rs" "take i xs @ drop (Suc i) xs"] False i show ?thesis
      by (auto simp: Let_def i_def [symmetric] split: prod.splits)
  qed
qed

lemma mset_remove_nth:
  "i < length xs \<Longrightarrow> add_mset (xs ! i) (mset (take i xs @ drop (Suc i) xs)) = mset xs"
  by (metis Cons_nth_drop_Suc append_take_drop_id mset.simps(2) mset_append union_mset_add_mset_right)

lemma draw_mset: "mset (fst (draw rs xs k)) \<subseteq># mset xs"
proof (induction k arbitrary: rs xs)
  case 0
  then show ?case by simp
next
  case (Suc k)
  show ?case
  proof (cases "xs = []")
    case True
    then show ?thesis by simp
  next
    case False
    define i where "i = (case rs of [] \<Rightarrow> 0 | r # _ \<Rightarrow> r) mod length xs"
    have i: "i < length xs" using False by (simp add: i_def)
    have "add_mset (xs ! i) (mset (fst (draw (tl rs) (take i xs @ drop (Suc i) xs) k))) \<subseteq># mset xs"
      using Suc.IH [of "tl rs" "take i xs @ drop (Suc i) xs"] mset_remove_nth [OF i]
      by (metis mset_subset_eq_add_mset_cancel)
    then show ?thesis using False
      by (auto simp: Let_def i_def [symmetric] split: prod.splits)
  qed
qed

lemma random_sample_Inr:
  assumes "random_sample rs xs k = (Inr ys, rs')"
  shows "0 \<le> k" "k \<le> int (length xs)" "int (length ys) = k" "mset ys \<subseteq># mset xs"
proof -
  from assms have k: "0 \<le> k" "k \<le> int (length xs)" and ys: "ys = fst (draw rs xs (nat k))"
    by (auto simp: random_sample_def split: if_splits prod.splits)
  show "0 \<le> k" "k \<le> int (length xs)" by fact+
  show "int (length ys) = k" using k by (simp add: ys draw_length)
  show "mset ys \<subseteq># mset xs" by (simp add: ys draw_mset)
qed

lemma random_sample_total:
  "0 \<le> k \<Longrightarrow> k \<le> int (length xs) \<Longrightarrow> \<exists>ys rs'. random_sample rs xs k = (Inr ys, rs')"
  by (auto simp: random_sample_def split: prod.splits)

lemma shuffle_mset: "mset (fst (shuffle rs xs)) = mset xs"
proof -
  have "mset (fst (draw rs xs (length xs))) \<subseteq># mset xs" by (rule draw_mset)
  moreover have "size (mset (fst (draw rs xs (length xs)))) = size (mset xs)"
    by (simp add: draw_length)
  ultimately show ?thesis unfolding shuffle_def
    by (metis mset_subset_size nat_less_le subset_mset.le_imp_less_or_eq)
qed

section \<open>Lemmas on grouping, quotas and the quota loop\<close>

lemma setdefault_append_keys:
  "set (map fst (setdefault_append k v g)) = insert k (set (map fst g))"
proof (induction g)
  case Nil
  show ?case by simp
next
  case (Cons p g)
  obtain k' vs where p: "p = (k', vs)" by (cases p)
  show ?case
  proof (cases "k' = k")
    case True
    then show ?thesis by (simp add: p)
  next
    case False
    then have "set (map fst (setdefault_append k v (p # g)))
        = insert k' (set (map fst (setdefault_append k v g)))" by (simp add: p)
    also have "\<dots> = insert k' (insert k (set (map fst g)))" by (simp only: Cons.IH)
    finally show ?thesis by (simp add: p insert_commute)
  qed
qed

lemma setdefault_append_distinct:
  "distinct (map fst g) \<Longrightarrow> distinct (map fst (setdefault_append k v g))"
proof (induction g)
  case Nil
  then show ?case by simp
next
  case (Cons p g)
  obtain k' vs where p: "p = (k', vs)" by (cases p)
  have "set (map fst (setdefault_append k v g)) = insert k (set (map fst g))"
    by (rule setdefault_append_keys)
  with Cons p show ?case by auto
qed

lemma setdefault_append_mset:
  "mset (concat (map snd (setdefault_append k v g))) = add_mset v (mset (concat (map snd g)))"
  by (induction g) auto

lemma group_nodes_Inr:
  "group_nodes bf ns g = Inr g' \<Longrightarrow> distinct (map fst g) \<Longrightarrow>
     distinct (map fst g') \<and> mset (concat (map snd g')) = mset (concat (map snd g)) + mset ns"
proof (induction ns arbitrary: g)
  case Nil
  then show ?case by simp
next
  case (Cons n ns)
  from Cons.prems(1) obtain key where key: "node_key n bf = Inr key"
    and rest: "group_nodes bf ns (setdefault_append key n g) = Inr g'"
    by (auto split: sum.splits)
  from Cons.IH [OF rest setdefault_append_distinct [OF Cons.prems(2)]]
  show ?case by (simp add: setdefault_append_mset)
qed

lemma node_key_total:
  "(\<And>f. f \<in> set bf \<Longrightarrow> \<exists>v. node_field_value n f = Inr v) \<Longrightarrow> \<exists>key. node_key n bf = Inr key"
  by (induction bf) (fastforce split: sum.splits)+

lemma group_nodes_total:
  "(\<And>n. n \<in> set ns \<Longrightarrow> \<exists>key. node_key n bf = Inr key) \<Longrightarrow> \<exists>g'. group_nodes bf ns g = Inr g'"
  by (induction ns arbitrary: g) (fastforce split: sum.splits)+

lemma indicator_sum:
  "0 \<le> r \<Longrightarrow> sum_list (map (\<lambda>i. b + (if int i < r then 1 else 0)) [0..<n]) = int n * b + min (int n) r"
  by (induction n) (auto simp: algebra_simps min_def)

lemma make_quotas_fst: "map fst (make_quotas ks b r) = ks"
  unfolding make_quotas_def by (induction ks rule: rev_induct) (auto simp: case_prod_beta)

lemma make_quotas_snd:
  "map snd (make_quotas ks b r) = map (\<lambda>i. b + (if int i < r then 1 else 0)) [0..<length ks]"
  unfolding make_quotas_def by (induction ks rule: rev_induct) (auto simp: case_prod_beta)

lemma sum_list_map_of:
  "distinct (map fst al) \<Longrightarrow> sum_list (map (\<lambda>k. f (the (map_of al k))) (map fst al)) = sum_list (map (\<lambda>p. f (snd p)) al)"
proof (induction al)
  case Nil
  then show ?case by simp
next
  case (Cons p al)
  have "map (\<lambda>k. f (the (map_of (p # al) k))) (map fst al) = map (\<lambda>k. f (the (map_of al k))) (map fst al)"
    using Cons.prems by (auto simp: rev_image_eqI)
  moreover have "sum_list (map (\<lambda>k. f (the (map_of al k))) (map fst al)) = sum_list (map (\<lambda>p. f (snd p)) al)"
    using Cons by simp
  ultimately have "sum_list (map (\<lambda>k. f (the (map_of (p # al) k))) (map fst al)) = sum_list (map (\<lambda>p. f (snd p)) al)"
    by (simp only:)
  moreover have "map (\<lambda>k. f (the (map_of (p # al) k))) (map fst (p # al))
      = f (snd p) # map (\<lambda>k. f (the (map_of (p # al) k))) (map fst al)" by simp
  ultimately show ?case by (simp only: list.map sum_list.Cons)
qed

lemma sum_list_perm:
  fixes f :: "'a \<Rightarrow> 'b::comm_monoid_add"
  shows "mset xs = mset ys \<Longrightarrow> sum_list (map f xs) = sum_list (map f ys)"
  by (metis mset_map sum_mset_sum_list)

lemma quota_sum:
  assumes "distinct ks" "0 \<le> r" "r \<le> int (length ks)"
  shows "sum_list (map (\<lambda>k. the (map_of (make_quotas ks b r) k)) ks) = int (length ks) * b + r"
proof -
  let ?q = "make_quotas ks b r"
  have d: "distinct (map fst ?q)" using assms(1) by (simp add: make_quotas_fst)
  have "sum_list (map (\<lambda>k. the (map_of ?q k)) ks) = sum_list (map (\<lambda>k. id (the (map_of ?q k))) (map fst ?q))"
    by (simp add: make_quotas_fst)
  also have "\<dots> = sum_list (map (\<lambda>p. id (snd p)) ?q)" by (rule sum_list_map_of [OF d])
  also have "\<dots> = sum_list (map snd ?q)" by simp
  also have "\<dots> = int (length ks) * b + min (int (length ks)) r"
    using assms(2) by (simp only: make_quotas_snd indicator_sum)
  finally show ?thesis using assms(3) by simp
qed

lemma groups_sum:
  assumes "distinct (map fst grps)" "mset ks = mset (map fst grps)"
  shows "sum_list (map (\<lambda>k. mset (the (map_of grps k))) ks) = mset (concat (map snd grps))"
proof -
  have "sum_list (map (\<lambda>k. mset (the (map_of grps k))) ks)
      = sum_list (map (\<lambda>k. mset (the (map_of grps k))) (map fst grps))"
    by (rule sum_list_perm [OF assms(2)])
  also have "\<dots> = sum_list (map (\<lambda>p. mset (snd p)) grps)" by (rule sum_list_map_of [OF assms(1)])
  also have "\<dots> = mset (concat (map snd grps))" by (induction grps) auto
  finally show ?thesis .
qed

lemma take_from_groups_Inr:
  assumes "\<And>k. k \<in> set ks \<Longrightarrow> \<exists>g. map_of grps k = Some g"
    and "\<And>k. k \<in> set ks \<Longrightarrow> \<exists>q. map_of quotas k = Some q \<and> 0 \<le> q"
  shows "\<exists>sel sf' rs'.
           take_from_groups rs ks grps quotas res sf = (Inr (res @ sel, sf'), rs')
           \<and> mset sel \<subseteq># sum_list (map (\<lambda>k. mset (the (map_of grps k))) ks)
           \<and> int (length sel) + (sf' - sf) = sum_list (map (\<lambda>k. the (map_of quotas k)) ks)
           \<and> sf \<le> sf'"
  using assms
proof (induction ks arbitrary: rs res sf)
  case Nil
  then show ?case by simp
next
  case (Cons k ks)
  from Cons.prems(1) [of k] obtain g where g: "map_of grps k = Some g" by auto
  from Cons.prems(2) [of k] obtain q where q: "map_of quotas k = Some q" "0 \<le> q" by auto
  define t where "t = min q (int (length g))"
  have t: "0 \<le> t" "t \<le> int (length g)" "t \<le> q" using q(2) by (auto simp: t_def)
  from random_sample_total [OF t(1,2)] obtain chosen rs1
    where rs: "random_sample rs g t = (Inr chosen, rs1)" by blast
  from random_sample_Inr [OF rs] have ch: "int (length chosen) = t" "mset chosen \<subseteq># mset g" by auto
  from Cons.IH [of rs1 "res @ chosen" "sf + (q - t)"] Cons.prems
  obtain sel sf' rs' where
    ih: "take_from_groups rs1 ks grps quotas (res @ chosen) (sf + (q - t)) = (Inr ((res @ chosen) @ sel, sf'), rs')"
      "mset sel \<subseteq># sum_list (map (\<lambda>k. mset (the (map_of grps k))) ks)"
      "int (length sel) + (sf' - (sf + (q - t))) = sum_list (map (\<lambda>k. the (map_of quotas k)) ks)"
      "sf + (q - t) \<le> sf'"
    by auto
  have run: "take_from_groups rs (k # ks) grps quotas res sf = (Inr (res @ (chosen @ sel), sf'), rs')"
    using g q(1) rs ih(1) by (simp add: t_def [symmetric] Let_def)
  have sub: "mset (chosen @ sel) \<subseteq># sum_list (map (\<lambda>k. mset (the (map_of grps k))) (k # ks))"
    using ch(2) ih(2) g by (simp add: subset_mset.add_mono)
  have len: "int (length (chosen @ sel)) + (sf' - sf) = sum_list (map (\<lambda>k. the (map_of quotas k)) (k # ks))"
    using ch(1) ih(3) q(1) by simp
  have "sf \<le> sf'" using ih(4) t(3) by simp
  with run sub len show ?case by blast
qed

lemma mset_sub_split: "mset xs \<subseteq># mset ys \<Longrightarrow> \<exists>zs. mset ys = mset (xs @ zs)"
  by (metis ex_mset mset_append mset_subset_eq_exists_conv)

lemma mset_sub_distinct:
  assumes "mset xs \<subseteq># mset ys" "distinct (map f ys)"
  shows "distinct (map f xs)"
proof -
  from mset_sub_split [OF assms(1)] obtain zs where "mset ys = mset (xs @ zs)" ..
  then have "mset (map f ys) = mset (map f (xs @ zs))" by (metis mset_map)
  then have "distinct (map f (xs @ zs))" using assms(2) by (metis mset_eq_imp_distinct_iff)
  then show ?thesis by simp
qed

lemma remaining_split:
  assumes "distinct (map fst nodes)" "mset sel \<subseteq># mset nodes"
  shows "mset nodes = mset sel + mset (filter (\<lambda>n. fst n \<notin> set (map fst sel)) nodes)"
proof -
  let ?P = "\<lambda>n. fst n \<notin> set (map fst sel)"
  from mset_sub_split [OF assms(2)] obtain zs where zs: "mset nodes = mset (sel @ zs)" ..
  then have "mset (map fst nodes) = mset (map fst (sel @ zs))" by (metis mset_map)
  then have d: "distinct (map fst (sel @ zs))" using assms(1) by (metis mset_eq_imp_distinct_iff)
  have "filter ?P sel = []" by (auto simp: filter_empty_conv)
  moreover have "filter ?P zs = zs" using d by (auto simp: filter_id_conv)
  ultimately have "mset (filter ?P (sel @ zs)) = mset zs" by simp
  moreover have "mset (filter ?P nodes) = mset (filter ?P (sel @ zs))"
    using zs by (metis mset_filter)
  ultimately show ?thesis using zs by simp
qed

lemma balanced_sample_run:
  assumes bf: "balance_fields fs \<noteq> []"
    and grp: "group_nodes (balance_fields fs) nodes [] = Inr grps"
    and L0: "0 \<le> L" and ne: "nodes \<noteq> []"
  shows "\<exists>res rs'. balanced_sample nodes L fs rs = (Inr res, rs')
           \<and> int (length res) \<le> L \<and> set res \<subseteq> set nodes
           \<and> (distinct (map fst nodes) \<longrightarrow> L \<le> int (length nodes) \<longrightarrow>
                int (length res) = L \<and> mset res \<subseteq># mset nodes)"
proof -
  from group_nodes_Inr [OF grp] have dg: "distinct (map fst grps)"
    and mg: "mset (concat (map snd grps)) = mset nodes" by auto
  obtain ks rs1 where sh: "shuffle rs (map fst grps) = (ks, rs1)" by (cases "shuffle rs (map fst grps)")
  have mk: "mset ks = mset (map fst grps)" using shuffle_mset [of rs "map fst grps"] sh by simp
  have grps_ne: "grps \<noteq> []" using mg ne by auto
  have ks_ne: "ks \<noteq> []" using mk grps_ne by auto
  have dk: "distinct ks" using mk dg by (metis mset_eq_imp_distinct_iff)
  have sk: "set ks = set (map fst grps)" using mk by (metis mset_eq_setD)
  define B where "B = int (length ks)"
  have B: "0 < B" using ks_ne by (simp add: B_def)
  define b where "b = L div B"
  define r where "r = L mod B"
  have r: "0 \<le> r" "r < B" using B by (simp_all add: r_def)
  have b: "0 \<le> b" using L0 B by (simp add: b_def pos_imp_zdiv_nonneg_iff)
  have Lbr: "B * b + r = L" by (simp add: b_def r_def)
  define quotas where "quotas = make_quotas ks b r"
  have qdef: "\<And>k. k \<in> set ks \<Longrightarrow> \<exists>q. map_of quotas k = Some q \<and> 0 \<le> q"
  proof -
    fix k assume "k \<in> set ks"
    then have "k \<in> set (map fst quotas)" by (simp add: quotas_def make_quotas_fst)
    then obtain q where q: "map_of quotas k = Some q"
      by (metis map_of_eq_None_iff not_None_eq set_map)
    then have "q \<in> set (map snd quotas)" by (metis map_of_SomeD set_zip_rightD zip_map_fst_snd)
    then have "0 \<le> q" using b by (auto simp: quotas_def make_quotas_snd)
    with q show "\<exists>q. map_of quotas k = Some q \<and> 0 \<le> q" by blast
  qed
  have gdef: "\<And>k. k \<in> set ks \<Longrightarrow> \<exists>g. map_of grps k = Some g"
    using sk by (metis map_of_eq_None_iff not_None_eq set_map)
  from take_from_groups_Inr [of ks grps quotas rs1 "[]" 0, OF gdef qdef]
  obtain sel sf rs2 where
    run: "take_from_groups rs1 ks grps quotas [] 0 = (Inr (sel, sf), rs2)"
    and sub0: "mset sel \<subseteq># sum_list (map (\<lambda>k. mset (the (map_of grps k))) ks)"
    and len0: "int (length sel) + (sf - 0) = sum_list (map (\<lambda>k. the (map_of quotas k)) ks)"
    and sf0: "0 \<le> sf"
    by auto
  have sub: "mset sel \<subseteq># mset nodes" using sub0 groups_sum [OF dg mk] mg by simp
  have ssub: "set sel \<subseteq> set nodes" using set_mset_mono [OF sub] by simp
  have "sum_list (map (\<lambda>k. the (map_of quotas k)) ks) = int (length ks) * b + r"
    unfolding quotas_def using r by (intro quota_sum [OF dk]) (simp_all add: B_def)
  then have len: "int (length sel) + sf = L" using len0 Lbr by (simp add: B_def)
  define remaining where "remaining = filter (\<lambda>n. fst n \<notin> set (map fst sel)) nodes"
  have unfold: "balanced_sample nodes L fs rs =
      (if sf > 0 then
         if remaining \<noteq> [] then
           (case random_sample rs2 remaining (min sf (int (length remaining))) of
              (Inl e, rs3) \<Rightarrow> (Inl e, rs3)
            | (Inr extra, rs3) \<Rightarrow> (Inr (sel @ extra), rs3))
         else (Inr sel, rs2)
       else (Inr sel, rs2))"
    using bf grp sh ks_ne run
    by (simp add: balanced_sample_def Let_def quotas_def b_def r_def B_def remaining_def)
  show ?thesis
  proof (cases "sf > 0")
    case False
    then have "sf = 0" using sf0 by simp
    then show ?thesis using unfold len sub ssub by simp
  next
    case True
    show ?thesis
    proof (cases "remaining = []")
      case True
      have "distinct (map fst nodes) \<longrightarrow> L \<le> int (length nodes) \<longrightarrow> False"
      proof (intro impI)
        assume d: "distinct (map fst nodes)" and lt: "L \<le> int (length nodes)"
        have "mset nodes = mset sel + mset remaining"
          unfolding remaining_def by (rule remaining_split [OF d sub])
        with True have "mset nodes = mset sel" by simp
        then have "length nodes = length sel" by (metis size_mset)
        with len lt \<open>sf > 0\<close> show False by simp
      qed
      then show ?thesis using unfold True \<open>sf > 0\<close> len ssub by auto
    next
      case False
      define t where "t = min sf (int (length remaining))"
      have t: "0 \<le> t" "t \<le> int (length remaining)" using \<open>sf > 0\<close> by (auto simp: t_def)
      from random_sample_total [OF t] obtain extra rs3
        where ex: "random_sample rs2 remaining t = (Inr extra, rs3)" by blast
      from random_sample_Inr [OF ex] have el: "int (length extra) = t"
        and es: "mset extra \<subseteq># mset remaining" by auto
      have res: "balanced_sample nodes L fs rs = (Inr (sel @ extra), rs3)"
        using unfold False \<open>sf > 0\<close> ex by (simp add: t_def [symmetric])
      have "distinct (map fst nodes) \<longrightarrow> L \<le> int (length nodes) \<longrightarrow>
              int (length (sel @ extra)) = L \<and> mset (sel @ extra) \<subseteq># mset nodes"
      proof (intro impI)
        assume d: "distinct (map fst nodes)" and lt: "L \<le> int (length nodes)"
        have sp: "mset nodes = mset sel + mset remaining"
          unfolding remaining_def by (rule remaining_split [OF d sub])
        then have "length nodes = length sel + length remaining"
          by (metis size_mset size_union)
        with len lt have "sf \<le> int (length remaining)" by simp
        then have "t = sf" by (simp add: t_def)
        with el len have "int (length (sel @ extra)) = L" by simp
        moreover have "mset (sel @ extra) \<subseteq># mset nodes" using es sp by simp
        ultimately show "int (length (sel @ extra)) = L \<and> mset (sel @ extra) \<subseteq># mset nodes" ..
      qed
      moreover have "int (length (sel @ extra)) \<le> L" using el len by (simp add: t_def)
      moreover have "set (sel @ extra) \<subseteq> set nodes"
        using ssub set_mset_mono [OF es] by (auto simp: remaining_def)
      ultimately show ?thesis using res by blast
    qed
  qed
qed

lemma make_quotas_zip:
  "make_quotas ks b r = zip ks (map (\<lambda>i. b + (if int i < r then 1 else 0)) [0..<length ks])"
  by (metis make_quotas_fst make_quotas_snd zip_map_fst_snd)

lemma take_from_groups_negative:
  assumes "k \<in> set ks" "map_of quotas k = Some q" "q < 0"
  shows "\<exists>e rs'. take_from_groups rs ks grps quotas res sf = (Inl e, rs')"
  using assms(1)
proof (induction ks arbitrary: rs res sf)
  case Nil
  then show ?case by simp
next
  case (Cons k' ks)
  show ?case
  proof (cases "map_of grps k'")
    case None
    then show ?thesis by simp
  next
    case (Some g)
    note g = this
    show ?thesis
    proof (cases "map_of quotas k'")
      case None
      then show ?thesis using g by simp
    next
      case (Some q')
      show ?thesis
      proof (cases "random_sample rs g (min q' (int (length g)))")
        case (Pair out rs1)
        show ?thesis
        proof (cases out)
          case (Inl e)
          then show ?thesis using g Some Pair by (simp add: Let_def)
        next
          case (Inr chosen)
          from random_sample_Inr(1) [OF Pair [unfolded Inr]] have "0 \<le> q'" by simp
          then have "k' \<noteq> k" using assms(2,3) Some by auto
          then have "k \<in> set ks" using Cons.prems by simp
          from Cons.IH [OF this] show ?thesis using g Some Pair Inr by (simp add: Let_def)
        qed
      qed
    qed
  qed
qed

lemma balanced_sample_negative:
  assumes "L < 0"
  shows "\<exists>e rs'. balanced_sample nodes L fs rs = (Inl e, rs')"
proof (cases "balance_fields fs = []")
  case True
  then show ?thesis using assms by (simp add: balanced_sample_def random_sample_def)
next
  case False
  note bf = this
  show ?thesis
  proof (cases "group_nodes (balance_fields fs) nodes []")
    case (Inl e)
    then show ?thesis using bf by (simp add: balanced_sample_def)
  next
    case (Inr grps)
    from group_nodes_Inr [OF Inr] have dg: "distinct (map fst grps)" by simp
    obtain ks rs1 where sh: "shuffle rs (map fst grps) = (ks, rs1)" by (cases "shuffle rs (map fst grps)")
    have mk: "mset ks = mset (map fst grps)" using shuffle_mset [of rs "map fst grps"] sh by simp
    have dk: "distinct ks" using mk dg by (metis mset_eq_imp_distinct_iff)
    show ?thesis
    proof (cases "ks = []")
      case True
      then show ?thesis using bf Inr sh by (simp add: balanced_sample_def)
    next
      case False
      define B where "B = int (length ks)"
      have B: "0 < B" using False by (simp add: B_def)
      define b where "b = L div B"
      define r where "r = L mod B"
      have r: "r < B" using B by (simp add: r_def)
      have b: "b < 0" using assms B by (simp add: b_def div_neg_pos_less0)
      define quotas where "quotas = make_quotas ks b r"
      define i where "i = length ks - 1"
      have i: "i < length ks" using False by (simp add: i_def)
      have "\<not> int i < r" using r False by (simp add: i_def B_def)
      moreover have "map_of quotas (ks ! i)
          = Some (map (\<lambda>i. b + (if int i < r then 1 else 0)) [0..<length ks] ! i)"
        unfolding quotas_def make_quotas_zip by (rule map_of_zip_nth) (use dk i in simp_all)
      ultimately have q: "map_of quotas (ks ! i) = Some b" using i by simp
      have "ks ! i \<in> set ks" using i by simp
      from take_from_groups_negative [OF this q b, of rs1 grps "[]" 0]
      obtain e rs2 where "take_from_groups rs1 ks grps quotas [] 0 = (Inl e, rs2)" by blast
      then show ?thesis using bf Inr sh False
        by (simp add: balanced_sample_def Let_def quotas_def b_def r_def B_def)
    qed
  qed
qed

lemma balanced_sample_Inr:
  assumes "balanced_sample nodes L fs rs = (Inr res, rs')"
  shows "0 \<le> L \<and> int (length res) \<le> L \<and> set res \<subseteq> set nodes
    \<and> (distinct (map fst nodes) \<longrightarrow> L \<le> int (length nodes) \<longrightarrow>
          int (length res) = L \<and> mset res \<subseteq># mset nodes)"
proof -
  have L0: "0 \<le> L" using balanced_sample_negative [of L nodes fs rs] assms by force
  show ?thesis
  proof (cases "balance_fields fs = []")
    case True
    then have "random_sample rs nodes L = (Inr res, rs')"
      using assms by (simp add: balanced_sample_def)
    from random_sample_Inr [OF this] show ?thesis using set_mset_mono [of "mset res" "mset nodes"] by auto
  next
    case False
    then obtain grps where grp: "group_nodes (balance_fields fs) nodes [] = Inr grps"
      using assms by (cases "group_nodes (balance_fields fs) nodes []") (auto simp: balanced_sample_def)
    have ne: "nodes \<noteq> []"
    proof
      assume "nodes = []"
      with grp have "grps = []" by simp
      with False grp assms show False by (simp add: balanced_sample_def shuffle_def)
    qed
    from balanced_sample_run [OF False grp L0 ne, of rs] assms L0 show ?thesis by auto
  qed
qed

lemma node_field_value_total:
  assumes "map_of (snd n) ''hostname'' = Some (PStr h)" "f \<in> set (map fst NODE_FILTER_FIELDS)"
  shows "\<exists>v. node_field_value n f = Inr v"
proof (cases "f = ''node''")
  case True
  then show ?thesis using assms(1) by (simp add: node_field_value_def)
next
  case False
  from assms(2) obtain k where "map_of NODE_FILTER_FIELDS f = Some k"
    by (metis map_of_eq_None_iff not_None_eq set_map)
  then show ?thesis using False
    by (auto simp: node_field_value_def split: option.splits pyval.splits)
qed

lemma balance_fields_subset: "set (balance_fields fs) \<subseteq> set (map fst fs)"
  by (auto simp: balance_fields_def)

lemma balanced_sample_total:
  assumes "0 \<le> L" "nodes \<noteq> []" "L \<le> int (length nodes)"
    and "\<And>n f. n \<in> set nodes \<Longrightarrow> f \<in> set (balance_fields fs) \<Longrightarrow> \<exists>v. node_field_value n f = Inr v"
  shows "\<exists>res rs'. balanced_sample nodes L fs rs = (Inr res, rs')"
proof (cases "balance_fields fs = []")
  case True
  then show ?thesis using random_sample_total [OF assms(1,3), of rs]
    by (simp add: balanced_sample_def)
next
  case False
  have "\<exists>g. group_nodes (balance_fields fs) nodes [] = Inr g"
    by (rule group_nodes_total, rule node_key_total) (use assms(4) in blast)
  then obtain grps where "group_nodes (balance_fields fs) nodes [] = Inr grps" ..
  from balanced_sample_run [OF False this assms(1,2), of rs] show ?thesis by blast
qed

section \<open>Balanced sampling\<close>

text \<open>
  C2.  For a list of pairwise distinct node objects (no object occurs twice in the
  list, which is what \<open>id(n)\<close> tells apart), a limit \<open>L\<close> with
  \<open>0 \<le> L < len(nodes)\<close> and any filter map, every result of \<open>_balanced_sample\<close>
  has exactly \<open>min(L, len(nodes))\<close> records, no object twice, all taken from the
  list; and it does return a result, whatever the random draws, when
  \<open>_node_field_value\<close> raises on no node for the balance fields.
\<close>

theorem balanced_sample_exact_size_no_duplicates:
  assumes "0 \<le> L" "L < int (length nodes)" "distinct (map fst nodes)"
  shows "(\<forall>res rs'. balanced_sample nodes L fs rs = (Inr res, rs') \<longrightarrow>
            int (length res) = min L (int (length nodes))
            \<and> distinct (map fst res) \<and> set res \<subseteq> set nodes)
       \<and> ((\<forall>n\<in>set nodes. \<forall>f\<in>set (balance_fields fs). \<exists>v. node_field_value n f = Inr v) \<longrightarrow>
            (\<exists>res rs'. balanced_sample nodes L fs rs = (Inr res, rs')))"
proof (intro conjI allI impI)
  fix res rs' assume run: "balanced_sample nodes L fs rs = (Inr res, rs')"
  from balanced_sample_Inr [OF run] assms
  have len: "int (length res) = L" and sub: "mset res \<subseteq># mset nodes"
    and ssub: "set res \<subseteq> set nodes" by auto
  show "int (length res) = min L (int (length nodes))" using len assms(2) by simp
  show "distinct (map fst res)" by (rule mset_sub_distinct [OF sub assms(3)])
  show "set res \<subseteq> set nodes" by (rule ssub)
next
  assume wf: "\<forall>n\<in>set nodes. \<forall>f\<in>set (balance_fields fs). \<exists>v. node_field_value n f = Inr v"
  have ne: "nodes \<noteq> []" using assms(1,2) by auto
  show "\<exists>res rs'. balanced_sample nodes L fs rs = (Inr res, rs')"
    by (rule balanced_sample_total [OF assms(1) ne]) (use assms(2) wf in auto)
qed

lemma ex_balanced_run:
  "balanced_sample ex_nodes 3 [(''continent'', {''europe'', ''asia''})] [2, 1, 2, 3, 4, 5]
     = (Inr [(3, [(''hostname'', PStr ''d.example''), (''continent'', PNone)]),
             (2, [(''hostname'', PStr ''c.example''), (''continent'', PStr ''Asia'')]),
             (1, [(''hostname'', PStr ''b.example''), (''continent'', PStr ''Europe'')])], [])"
  by code_simp

theorem balanced_sample_exact_size_no_duplicates_witness:
  "(0::int) \<le> 3 \<and> 3 < int (length ex_nodes) \<and> distinct (map fst ex_nodes)
   \<and> (\<exists>res rs'. balanced_sample ex_nodes 3 [(''continent'', {''europe'', ''asia''})]
                     [2, 1, 2, 3, 4, 5] = (Inr res, rs')
          \<and> int (length res) = min 3 (int (length ex_nodes))
          \<and> distinct (map fst res) \<and> set res \<subseteq> set ex_nodes)"
proof -
  have h: "(0::int) \<le> 3" "3 < int (length ex_nodes)" "distinct (map fst ex_nodes)"
    by (simp_all add: ex_nodes_def)
  from balanced_sample_exact_size_no_duplicates
         [OF h, of "[(''continent'', {''europe'', ''asia''})]" "[2, 1, 2, 3, 4, 5]"]
    ex_balanced_run
  show ?thesis using h by blast
qed

section \<open>Healthy nodes\<close>

lemma filtered_Inr:
  assumes "(if fs \<noteq> [] then apply_filters fs xs else Inr xs) = Inr ys"
  shows "set ys \<subseteq> set xs"
    and "\<And>n f allowed. n \<in> set ys \<Longrightarrow> (f, allowed) \<in> set fs \<Longrightarrow> passes_filter f allowed n = Inr True"
proof -
  show "set ys \<subseteq> set xs"
  proof (cases "fs = []")
    case True
    with assms show ?thesis by simp
  next
    case False
    with assms have "apply_filters fs xs = Inr ys" by simp
    from apply_filters_Inr [OF this] show ?thesis by blast
  qed
  fix n f allowed assume n: "n \<in> set ys" and f: "(f, allowed) \<in> set fs"
  then have "fs \<noteq> []" by auto
  with assms have "apply_filters fs xs = Inr ys" by simp
  from apply_filters_Inr [OF this] have
    "\<forall>n\<in>set ys. \<forall>(f, allowed)\<in>set fs. passes_filter f allowed n = Inr True" by blast
  with n f show "passes_filter f allowed n = Inr True" by blast
qed

lemma is_healthy_True:
  "is_healthy sh n = Inr True \<longleftrightarrow>
     (\<exists>h. map_of (snd n) ''hostname'' = Some (PStr h) \<and> sh h = Some Healthy)"
  by (cases "map_of (snd n) ''hostname''"; cases "the (map_of (snd n) ''hostname'')")
     (simp_all add: is_healthy_def)

lemma is_healthy_total:
  "map_of (snd n) ''hostname'' \<noteq> None \<Longrightarrow> \<exists>b. is_healthy sh n = Inr b"
  by (cases "map_of (snd n) ''hostname''"; cases "the (map_of (snd n) ''hostname'')")
     (auto simp: is_healthy_def)

lemma passes_filter_True:
  "passes_filter f allowed n = Inr True \<longleftrightarrow> (\<exists>v. node_field_value n f = Inr v \<and> lower v \<in> allowed)"
  by (cases "node_field_value n f") (simp_all add: passes_filter_def)

lemma fetch_healthy_nodes_Inr:
  assumes "fetch_healthy_nodes m limit fs rs = (Inr res, rs')"
  shows "\<exists>healthy0 healthy.
    filter_raise (is_healthy (session_health m)) (node_cache m) = Inr healthy0
    \<and> (if fs \<noteq> [] then apply_filters fs healthy0 else Inr healthy0) = Inr healthy
    \<and> set res \<subseteq> set healthy
    \<and> (\<forall>l. limit = Some l \<longrightarrow> int (length res) \<le> l)"
proof -
  obtain healthy0 where
    h0: "filter_raise (is_healthy (session_health m)) (node_cache m) = Inr healthy0"
    using assms
    by (cases "filter_raise (is_healthy (session_health m)) (node_cache m)")
       (simp_all add: fetch_healthy_nodes_def)
  obtain healthy where
    h: "(if fs \<noteq> [] then apply_filters fs healthy0 else Inr healthy0) = Inr healthy"
    using assms h0
    by (cases "if fs \<noteq> [] then apply_filters fs healthy0 else Inr healthy0")
       (simp_all add: fetch_healthy_nodes_def)
  have r: "(case limit of
              None \<Rightarrow> (Inr healthy, rs)
            | Some l \<Rightarrow>
                if l < int (length healthy) then
                  (if fs \<noteq> [] then balanced_sample healthy l fs rs
                   else random_sample rs healthy l)
                else (Inr healthy, rs)) = (Inr res, rs')"
    using assms h0 h by (simp add: fetch_healthy_nodes_def)
  have "set res \<subseteq> set healthy \<and> (\<forall>l. limit = Some l \<longrightarrow> int (length res) \<le> l)"
  proof (cases limit)
    case None
    with r show ?thesis by simp
  next
    case (Some l)
    show ?thesis
    proof (cases "l < int (length healthy)")
      case False
      with r Some have "res = healthy" by simp
      with False Some show ?thesis by simp
    next
      case True
      note lt = this
      show ?thesis
      proof (cases "fs \<noteq> []")
        case True
        with r Some lt
        have "balanced_sample healthy l fs rs = (Inr res, rs')" by simp
        from balanced_sample_Inr [OF this] Some show ?thesis by simp
      next
        case False
        with r Some lt
        have "random_sample rs healthy l = (Inr res, rs')" by simp
        from random_sample_Inr [OF this] have "int (length res) = l" "mset res \<subseteq># mset healthy"
          by simp_all
        then show ?thesis using Some set_mset_mono [of "mset res" "mset healthy"] by simp
      qed
    qed
  qed
  with h0 h show ?thesis by blast
qed

lemma fetch_healthy_nodes_total:
  assumes L: "0 \<le> L"
    and hn: "\<And>n. n \<in> set (node_cache m) \<Longrightarrow> map_of (snd n) ''hostname'' \<noteq> None"
    and ff: "\<And>f allowed. (f, allowed) \<in> set fs \<Longrightarrow> f \<in> set (map fst NODE_FILTER_FIELDS)"
  shows "\<exists>res rs'. fetch_healthy_nodes m (Some L) fs rs = (Inr res, rs')"
proof -
  have "\<exists>healthy0. filter_raise (is_healthy (session_health m)) (node_cache m) = Inr healthy0"
    by (rule filter_raise_total) (rule is_healthy_total, rule hn)
  then obtain healthy0 where
    h0: "filter_raise (is_healthy (session_health m)) (node_cache m) = Inr healthy0" ..
  have h0_eq: "healthy0 = filter (\<lambda>n. is_healthy (session_health m) n = Inr True) (node_cache m)"
    using h0 by (rule filter_raise_Inr)
  have tot: "\<exists>v. node_field_value n f = Inr v"
    if n: "n \<in> set healthy0" and f: "(f, allowed) \<in> set fs" for n f allowed
  proof -
    from n have "is_healthy (session_health m) n = Inr True" by (simp add: h0_eq)
    then obtain h where "map_of (snd n) ''hostname'' = Some (PStr h)"
      unfolding is_healthy_True by blast
    then show ?thesis using ff [OF f] by (rule node_field_value_total)
  qed
  have "\<exists>healthy. (if fs \<noteq> [] then apply_filters fs healthy0 else Inr healthy0) = Inr healthy"
  proof (cases "fs \<noteq> []")
    case True
    have "\<exists>ys. apply_filters fs healthy0 = Inr ys"
      by (rule apply_filters_total) (rule tot)
    with True show ?thesis by simp
  next
    case False
    then show ?thesis by simp
  qed
  then obtain healthy where
    h: "(if fs \<noteq> [] then apply_filters fs healthy0 else Inr healthy0) = Inr healthy" ..
  have hsub: "set healthy \<subseteq> set healthy0" using h by (rule filtered_Inr(1))
  show ?thesis
  proof (cases "L < int (length healthy)")
    case False
    then show ?thesis using h0 h by (simp add: fetch_healthy_nodes_def)
  next
    case True
    then have ne: "healthy \<noteq> []" using L by auto
    have le: "L \<le> int (length healthy)" using True by simp
    show ?thesis
    proof (cases "fs \<noteq> []")
      case False
      from random_sample_total [OF L le, of rs]
      obtain ys rs1 where "random_sample rs healthy L = (Inr ys, rs1)" by blast
      then show ?thesis using h0 h True False by (simp add: fetch_healthy_nodes_def)
    next
      case fs: True
      have "\<exists>res rs'. balanced_sample healthy L fs rs = (Inr res, rs')"
      proof (rule balanced_sample_total [OF L ne le])
        fix n f assume n: "n \<in> set healthy" and f: "f \<in> set (balance_fields fs)"
        from f balance_fields_subset [of fs] obtain allowed where "(f, allowed) \<in> set fs"
          by auto
        moreover have "n \<in> set healthy0" using n hsub by blast
        ultimately show "\<exists>v. node_field_value n f = Inr v" using tot by blast
      qed
      then obtain res rs1 where "balanced_sample healthy L fs rs = (Inr res, rs1)" by blast
      then show ?thesis using h0 h True fs by (simp add: fetch_healthy_nodes_def)
    qed
  qed
qed

lemma fetch_healthy_nodes_sound:
  assumes run: "fetch_healthy_nodes m limit fs rs = (Inr res, rs')" and n: "n \<in> set res"
  shows "n \<in> set (node_cache m)"
    and "\<exists>h. map_of (snd n) ''hostname'' = Some (PStr h) \<and> session_health m h = Some Healthy"
    and "\<And>f allowed. (f, allowed) \<in> set fs \<Longrightarrow> \<exists>v. node_field_value n f = Inr v \<and> lower v \<in> allowed"
proof -
  from fetch_healthy_nodes_Inr [OF run] obtain healthy0 healthy where
    h0: "filter_raise (is_healthy (session_health m)) (node_cache m) = Inr healthy0"
    and h: "(if fs \<noteq> [] then apply_filters fs healthy0 else Inr healthy0) = Inr healthy"
    and sub: "set res \<subseteq> set healthy"
    by blast
  have h0_eq: "healthy0 = filter (\<lambda>n. is_healthy (session_health m) n = Inr True) (node_cache m)"
    using h0 by (rule filter_raise_Inr)
  have nh: "n \<in> set healthy" using n sub by blast
  then have n0: "n \<in> set healthy0" using filtered_Inr(1) [OF h] by blast
  then show "n \<in> set (node_cache m)" by (simp add: h0_eq)
  from n0 have "is_healthy (session_health m) n = Inr True" by (simp add: h0_eq)
  then show "\<exists>h. map_of (snd n) ''hostname'' = Some (PStr h) \<and> session_health m h = Some Healthy"
    unfolding is_healthy_True .
  fix f allowed assume "(f, allowed) \<in> set fs"
  from filtered_Inr(2) [OF h nh this]
  show "\<exists>v. node_field_value n f = Inr v \<and> lower v \<in> allowed"
    unfolding passes_filter_True .
qed

text \<open>
  C3.  Whatever the roster, the health map, the limit \<open>L\<close>, the filter map and the
  random draws: a result of \<open>fetch_healthy_nodes(limit=L, filters=F)\<close> has at most
  \<open>L\<close> records, each of them a record of the roster whose hostname is labelled
  \<open>healthy\<close> and whose case-folded value for every filter field is in that filter's
  allowed set.  The call returns a result when \<open>L\<close> is not negative, every roster
  record has a hostname and every filter field is one of \<open>NODE_FILTER_FIELDS\<close>.
\<close>

theorem fetch_healthy_nodes_limit_healthy_filtered:
  "(\<forall>res rs'. fetch_healthy_nodes m (Some L) fs rs = (Inr res, rs') \<longrightarrow>
       int (length res) \<le> L
       \<and> (\<forall>n\<in>set res. n \<in> set (node_cache m)
             \<and> (\<exists>h. map_of (snd n) ''hostname'' = Some (PStr h)
                    \<and> session_health m h = Some Healthy)
             \<and> (\<forall>(f, allowed)\<in>set fs.
                    \<exists>v. node_field_value n f = Inr v \<and> lower v \<in> allowed)))
   \<and> (0 \<le> L
        \<and> (\<forall>n\<in>set (node_cache m). map_of (snd n) ''hostname'' \<noteq> None)
        \<and> (\<forall>(f, allowed)\<in>set fs. f \<in> set (map fst NODE_FILTER_FIELDS))
        \<longrightarrow> (\<exists>res rs'. fetch_healthy_nodes m (Some L) fs rs = (Inr res, rs')))"
proof (intro conjI allI impI ballI)
  fix res rs' assume run: "fetch_healthy_nodes m (Some L) fs rs = (Inr res, rs')"
  from fetch_healthy_nodes_Inr [OF run] show "int (length res) \<le> L" by blast
  fix n assume n: "n \<in> set res"
  show "n \<in> set (node_cache m)" by (rule fetch_healthy_nodes_sound(1) [OF run n])
  show "\<exists>h. map_of (snd n) ''hostname'' = Some (PStr h) \<and> session_health m h = Some Healthy"
    by (rule fetch_healthy_nodes_sound(2) [OF run n])
  fix fa assume fa: "fa \<in> set fs"
  obtain f allowed where eq: "fa = (f, allowed)" by (cases fa)
  from fetch_healthy_nodes_sound(3) [OF run n, of f allowed] fa eq
  show "case fa of (f, allowed) \<Rightarrow> \<exists>v. node_field_value n f = Inr v \<and> lower v \<in> allowed"
    by simp
next
  assume a: "0 \<le> L
        \<and> (\<forall>n\<in>set (node_cache m). map_of (snd n) ''hostname'' \<noteq> None)
        \<and> (\<forall>(f, allowed)\<in>set fs. f \<in> set (map fst NODE_FILTER_FIELDS))"
  show "\<exists>res rs'. fetch_healthy_nodes m (Some L) fs rs = (Inr res, rs')"
  proof (rule fetch_healthy_nodes_total)
    show "0 \<le> L" using a by blast
    show "\<And>n. n \<in> set (node_cache m) \<Longrightarrow> map_of (snd n) ''hostname'' \<noteq> None" using a by blast
    fix f allowed assume "(f, allowed) \<in> set fs"
    moreover have "\<forall>(f, allowed)\<in>set fs. f \<in> set (map fst NODE_FILTER_FIELDS)" using a by blast
    ultimately show "f \<in> set (map fst NODE_FILTER_FIELDS)" by blast
  qed
qed

lemma ex_fetch_run:
  "fetch_healthy_nodes ex_manager (Some 1) [(''continent'', {''europe''})] [1]
     = (Inr [(1, [(''hostname'', PStr ''b.example''), (''continent'', PStr ''Europe'')])], [])"
  by code_simp

theorem fetch_healthy_nodes_limit_healthy_filtered_witness:
  "(0::int) \<le> 1
   \<and> list_all (\<lambda>n. map_of (snd n) ''hostname'' \<noteq> None) (node_cache ex_manager)
   \<and> list_all (\<lambda>(f, allowed). f \<in> set (map fst NODE_FILTER_FIELDS)) [(''continent'', {''europe''})]
   \<and> (\<exists>res rs'. fetch_healthy_nodes ex_manager (Some 1) [(''continent'', {''europe''})] [1]
                     = (Inr res, rs')
          \<and> int (length res) \<le> 1
          \<and> list_all (\<lambda>n. \<exists>h. map_of (snd n) ''hostname'' = Some (PStr h)
                              \<and> session_health ex_manager h = Some Healthy) res
          \<and> list_all (\<lambda>n. \<exists>v. node_field_value n ''continent'' = Inr v
                              \<and> lower v \<in> {''europe''}) res)"
proof -
  have pre: "list_all (\<lambda>n. map_of (snd n) ''hostname'' \<noteq> None) (node_cache ex_manager)"
    "list_all (\<lambda>(f, allowed). f \<in> set (map fst NODE_FILTER_FIELDS)) [(''continent'', {''europe''})]"
    by (simp_all add: ex_manager_def ex_nodes_def NODE_FILTER_FIELDS_def)
  from fetch_healthy_nodes_limit_healthy_filtered
         [of ex_manager 1 "[(''continent'', {''europe''})]" "[1]"]
  have "\<forall>res rs'. fetch_healthy_nodes ex_manager (Some 1) [(''continent'', {''europe''})] [1]
                     = (Inr res, rs') \<longrightarrow>
          int (length res) \<le> 1
          \<and> (\<forall>n\<in>set res. n \<in> set (node_cache ex_manager)
               \<and> (\<exists>h. map_of (snd n) ''hostname'' = Some (PStr h)
                      \<and> session_health ex_manager h = Some Healthy)
               \<and> (\<forall>(f, allowed)\<in>set [(''continent'', {''europe''})].
                      \<exists>v. node_field_value n f = Inr v \<and> lower v \<in> allowed))"
    by (rule conjunct1)
  with ex_fetch_run have
    "int (length [(1::nat, [(''hostname'', PStr ''b.example''), (''continent'', PStr ''Europe'')])]) \<le> 1
     \<and> (\<forall>n\<in>set [(1::nat, [(''hostname'', PStr ''b.example''), (''continent'', PStr ''Europe'')])].
            n \<in> set (node_cache ex_manager)
            \<and> (\<exists>h. map_of (snd n) ''hostname'' = Some (PStr h)
                   \<and> session_health ex_manager h = Some Healthy)
            \<and> (\<forall>(f, allowed)\<in>set [(''continent'', {''europe''})].
                   \<exists>v. node_field_value n f = Inr v \<and> lower v \<in> allowed))"
    by blast
  then show ?thesis using ex_fetch_run pre by simp
qed

section \<open>Missing fields\<close>

text \<open>
  C10.  For a node whose dict has no entry, or the value \<open>None\<close>, for one of the
  filter fields read from the dict, \<open>_node_field_value\<close> returns the empty string;
  so no result of \<open>fetch_healthy_nodes\<close> with a filter on that field whose allowed
  set does not contain the empty string contains the node.
\<close>

theorem missing_field_is_empty_and_fails_filter:
  assumes "field \<in> {''asn'', ''city'', ''countrycode'', ''continent'', ''company''}"
    and "map_of (snd n) field = None \<or> map_of (snd n) field = Some PNone"
  shows "node_field_value n field = Inr ''''
    \<and> ((field, allowed) \<in> set fs \<longrightarrow> '''' \<notin> allowed \<longrightarrow>
         (\<forall>res rs'. fetch_healthy_nodes m limit fs rs = (Inr res, rs') \<longrightarrow> n \<notin> set res))"
proof -
  have key: "field \<noteq> ''node''" "map_of NODE_FILTER_FIELDS field = Some (Some field)"
    using assms(1) by (auto simp: NODE_FILTER_FIELDS_def)
  have v: "node_field_value n field = Inr ''''"
    using assms(2) key by (auto simp: node_field_value_def)
  have "n \<notin> set res"
    if f: "(field, allowed) \<in> set fs" and e: "'''' \<notin> allowed"
      and run: "fetch_healthy_nodes m limit fs rs = (Inr res, rs')" for res rs'
  proof
    assume "n \<in> set res"
    from fetch_healthy_nodes_sound(3) [OF run this f] v have "lower '''' \<in> allowed" by auto
    with e show False by (simp add: lower_def)
  qed
  with v show ?thesis by blast
qed

theorem missing_field_is_empty_and_fails_filter_witness:
  "''continent'' \<in> {''asn'', ''city'', ''countrycode'', ''continent'', ''company''}
   \<and> map_of [(''hostname'', PStr ''d.example''), (''continent'', PNone)] ''continent'' = Some PNone
   \<and> map_of [(''hostname'', PStr ''e.example'')] ''continent'' = None
   \<and> (''continent'', {''europe''}) \<in> set [(''continent'', {''europe''})]
   \<and> '''' \<notin> {''europe''}
   \<and> node_field_value (3, [(''hostname'', PStr ''d.example''), (''continent'', PNone)]) ''continent'' = Inr ''''
   \<and> node_field_value (4, [(''hostname'', PStr ''e.example'')]) ''continent'' = Inr ''''
   \<and> fetch_healthy_nodes ex_manager None [(''continent'', {''europe''})] []
        = (Inr [(0, [(''hostname'', PStr ''a.example''), (''continent'', PStr ''Europe'')]),
                (1, [(''hostname'', PStr ''b.example''), (''continent'', PStr ''Europe'')])], [])
   \<and> (3, [(''hostname'', PStr ''d.example''), (''continent'', PNone)])
        \<notin> set [(0, [(''hostname'', PStr ''a.example''), (''continent'', PStr ''Europe'')]),
                 (1::nat, [(''hostname'', PStr ''b.example''), (''continent'', PStr ''Europe'')])]"
proof -
  have ev: "fetch_healthy_nodes ex_manager None [(''continent'', {''europe''})] []
        = (Inr [(0, [(''hostname'', PStr ''a.example''), (''continent'', PStr ''Europe'')]),
                (1, [(''hostname'', PStr ''b.example''), (''continent'', PStr ''Europe'')])], [])"
    by code_simp
  have h: "''continent'' \<in> {''asn'', ''city'', ''countrycode'', ''continent'', ''company''}"
    "map_of (snd (3::nat, [(''hostname'', PStr ''d.example''), (''continent'', PNone)])) ''continent'' = None
     \<or> map_of (snd (3::nat, [(''hostname'', PStr ''d.example''), (''continent'', PNone)])) ''continent'' = Some PNone"
    "map_of (snd (4::nat, [(''hostname'', PStr ''e.example'')])) ''continent'' = None
     \<or> map_of (snd (4::nat, [(''hostname'', PStr ''e.example'')])) ''continent'' = Some PNone"
    by simp_all
  from missing_field_is_empty_and_fails_filter [OF h(1,2), of "{''europe''}" "[(''continent'', {''europe''})]" ex_manager None "[]"]
    missing_field_is_empty_and_fails_filter [OF h(1,3), of "{''europe''}" "[(''continent'', {''europe''})]" ex_manager None "[]"]
    ev
  show ?thesis by simp
qed

section \<open>Catalog normalisation\<close>

lemma filter_api_nodes_loop_map:
  "filter_api_nodes_loop gc ps raws acc =
     acc @ map (\<lambda>n. [(''hostname'', PStr (raw_hostname n)),
                     (''asn'', PStr (str_int (raw_asn n))),
                     (''city'', raw_city n),
                     (''countrycode'', PStr (upper (raw_countrycode n))),
                     (''continent'', PStr (get_continent gc (upper (raw_countrycode n)))),
                     (''company'', (case participant n of
                         None \<Rightarrow> PStr ''Unknown''
                       | Some p \<Rightarrow> (case ps p of None \<Rightarrow> PStr ''Unknown'' | Some c \<Rightarrow> c)))])
             (filter (\<lambda>n. alive_ipv4 n \<and> alive_ipv6 n) raws)"
  by (induction raws arbitrary: acc) (simp_all add: Let_def)

lemma ex_filter_api_nodes:
  "filter_api_nodes ex_coco
     [\<lparr>raw_hostname = ''a.example'', raw_asn = 64512, raw_city = PStr ''Amsterdam'',
       raw_countrycode = ''nl'', alive_ipv4 = True, alive_ipv6 = True, participant = Some 7\<rparr>,
      \<lparr>raw_hostname = ''b.example'', raw_asn = 64513, raw_city = PNone,
       raw_countrycode = ''br'', alive_ipv4 = True, alive_ipv6 = False, participant = Some 7\<rparr>,
      \<lparr>raw_hostname = ''c.example'', raw_asn = 64514, raw_city = PNone,
       raw_countrycode = ''br'', alive_ipv4 = True, alive_ipv6 = True, participant = None\<rparr>]
     (map_of [(7, PStr ''Example BV'')])
   = [[(''hostname'', PStr ''a.example''), (''asn'', PStr ''64512''), (''city'', PStr ''Amsterdam''),
       (''countrycode'', PStr ''NL''), (''continent'', PStr ''Europe''), (''company'', PStr ''Example BV'')],
      [(''hostname'', PStr ''c.example''), (''asn'', PStr ''64514''), (''city'', PNone),
       (''countrycode'', PStr ''BR''), (''continent'', PStr ''South America''), (''company'', PStr ''Unknown'')]]"
  by (simp add: filter_api_nodes_def ex_coco_def get_continent_def upper_def upper_char_def str_int_def Let_def)

text \<open>
  C8.  The records \<open>filter_api_nodes\<close> returns are, in order, those of the raw
  records whose \<open>alive_ipv4\<close> and \<open>alive_ipv6\<close> are both true, one node for each;
  the node has the raw hostname and city, the \<open>asn\<close> as a string, the countrycode in
  upper case, the continent \<open>get_continent\<close> gives for the upper-cased code, and the
  company of the participant map, \<open>"Unknown"\<close> when the record has no participant id
  or the map does not have it.
\<close>

theorem filter_api_nodes_admits_alive_and_normalises:
  "list_all2
     (\<lambda>n d. map_of d ''hostname'' = Some (PStr (raw_hostname n))
          \<and> map_of d ''asn'' = Some (PStr (str_int (raw_asn n)))
          \<and> map_of d ''city'' = Some (raw_city n)
          \<and> map_of d ''countrycode'' = Some (PStr (upper (raw_countrycode n)))
          \<and> map_of d ''continent'' = Some (PStr (get_continent gc (upper (raw_countrycode n))))
          \<and> map_of d ''company'' =
               Some (case participant n of
                       None \<Rightarrow> PStr ''Unknown''
                     | Some p \<Rightarrow>
                         (case participants p of None \<Rightarrow> PStr ''Unknown'' | Some c \<Rightarrow> c)))
     (filter (\<lambda>n. alive_ipv4 n \<and> alive_ipv6 n) raw_nodes)
     (filter_api_nodes gc raw_nodes participants)"
  unfolding filter_api_nodes_def filter_api_nodes_loop_map
  by (simp add: list_all2_map2 list_all2_same)

section \<open>The limit parameter of /probe\<close>

text \<open>
  C5.  The request \<open>GET /probe?target=1.1.1.1&limit=-1\<close> is not rejected with status
  400: \<open>int("-1")\<close> succeeds, and \<open>fetch_healthy_nodes\<close> raises \<open>ValueError\<close>
  from \<open>random.sample\<close>, with and without filters and also on an empty roster; the
  exception leaves the handler.  A limit that is not an integer literal is answered
  with 400.
\<close>

theorem probe_negative_limit_raises:
  "py_int ''-1'' = Some (- 1)
   \<and> probe (\<lambda>_. True) ex_manager (map_of [(''target'', ''1.1.1.1''), (''limit'', ''-1'')]) []
       = Inl ValueError
   \<and> probe (\<lambda>_. True) ex_manager
         (map_of [(''target'', ''1.1.1.1''), (''limit'', ''-1''), (''continent'', ''europe,asia'')]) []
       = Inl ValueError
   \<and> probe (\<lambda>_. True) init_manager (map_of [(''target'', ''1.1.1.1''), (''limit'', ''-1'')]) []
       = Inl ValueError
   \<and> probe (\<lambda>_. True) ex_manager (map_of [(''target'', ''1.1.1.1''), (''limit'', ''x'')]) []
       = Inr 400"
  by code_simp

section \<open>Parsing the output of ping\<close>

lemma contains_mid: "contains (p @ sub @ q) sub"
proof (induction p)
  case Nil
  show ?case
  proof (cases "sub @ q")
    case Nil
    then show ?thesis by simp
  next
    case (Cons a list)
    have "startswith (sub @ q) sub" by (simp add: startswith_def)
    then show ?thesis using Cons by simp
  qed
next
  case (Cons c p)
  then show ?case by simp
qed

lemma splitlines_acc_sub:
  "l \<in> set (splitlines_acc s cur) \<Longrightarrow> \<exists>p q. rev cur @ s = p @ l @ q"
proof (induction s cur rule: splitlines_acc.induct)
  case (1 cur)
  then show ?case by (auto split: if_splits intro: exI [of _ "[]"])
next
  case (2 c cur)
  show ?case
  proof (cases "is_linebreak c")
    case True
    with 2 have "l = rev cur" by simp
    then have "rev cur @ [c] = [] @ l @ [c]" by simp
    then show ?thesis by blast
  next
    case False
    with 2 have "l = rev (c # cur)" by simp
    then have "rev cur @ [c] = [] @ l @ []" by simp
    then show ?thesis by blast
  qed
next
  case (3 c d cs cur)
  show ?case
  proof (cases "c = CHR 0x0D \<and> d = CHR 0x0A")
    case True
    with 3 have "l = rev cur \<or> l \<in> set (splitlines_acc cs [])" by simp
    then show ?thesis
    proof
      assume "l = rev cur"
      then have "rev cur @ c # d # cs = [] @ l @ (c # d # cs)" by simp
      then show ?thesis by blast
    next
      assume "l \<in> set (splitlines_acc cs [])"
      with 3(1) True obtain p q where "rev [] @ cs = p @ l @ q" by blast
      then have "rev cur @ c # d # cs = (rev cur @ c # d # p) @ l @ q" by simp
      then show ?thesis by blast
    qed
  next
    case nocrlf: False
    show ?thesis
    proof (cases "is_linebreak c")
      case True
      with 3 nocrlf have "l = rev cur \<or> l \<in> set (splitlines_acc (d # cs) [])" by auto
      then show ?thesis
      proof
        assume "l = rev cur"
        then have "rev cur @ c # d # cs = [] @ l @ (c # d # cs)" by simp
        then show ?thesis by blast
      next
        assume "l \<in> set (splitlines_acc (d # cs) [])"
        with 3(2) nocrlf True obtain p q where "rev [] @ d # cs = p @ l @ q" by blast
        then have "rev cur @ c # d # cs = (rev cur @ c # p) @ l @ q" by simp
        then show ?thesis by blast
      qed
    next
      case False
      with 3 nocrlf have "l \<in> set (splitlines_acc (d # cs) (c # cur))" by auto
      with 3(3) nocrlf False obtain p q where "rev (c # cur) @ d # cs = p @ l @ q" by blast
      then show ?thesis by auto
    qed
  qed
qed

lemma rtt_line_contains:
  assumes "find (\<lambda>l. startswith l ''rtt'') (splitlines output) = Some l"
  shows "contains output ''rtt''"
proof -
  from assms have l: "l \<in> set (splitlines output)" "startswith l ''rtt''"
    by (auto simp: find_Some_iff)
  from splitlines_acc_sub [of l "output" "[]"] l(1) obtain p q where pq: "output = p @ l @ q"
    by (auto simp: splitlines_def)
  from l(2) have "l = ''rtt'' @ drop 3 l"
    by (metis append_take_drop_id startswith_def length_Cons list.size(3) numeral_3_eq_3)
  then have "output = p @ ''rtt'' @ (drop 3 l @ q)" using pq by (metis append.assoc)
  then show ?thesis using contains_mid [of p "''rtt''" "drop 3 l @ q"] by simp
qed

lemma split_on_takeWhile:
  "split_on c s = takeWhile (\<lambda>x. x \<noteq> c) s
     # (case dropWhile (\<lambda>x. x \<noteq> c) s of [] \<Rightarrow> [] | _ # r \<Rightarrow> split_on c r)"
  by (induction s) (auto split: list.splits)

lemma split_on_none: "c \<notin> set s \<Longrightarrow> split_on c s = [s]"
  by (induction s) (auto split: list.splits)

lemma split_on_append: "c \<notin> set s \<Longrightarrow> split_on c (s @ c # t) = s # split_on c t"
  by (induction s) (auto split: list.splits)

lemma split_on_no_sep: "p \<in> set (split_on c s) \<Longrightarrow> c \<notin> set p"
proof (induction s arbitrary: p)
  case Nil
  then show ?case by simp
next
  case (Cons x s)
  then show ?case by (cases "split_on c s") (auto split: if_splits)
qed

lemma split_on_concat4:
  "split_on c s = [a, b, d, e] \<Longrightarrow> s = a @ c # b @ c # d @ c # e"
proof -
  have gen: "\<And>ps. split_on c s = ps \<Longrightarrow> s = concat (map (\<lambda>p. p @ [c]) (butlast ps)) @ last ps"
  proof (induction s)
    case Nil
    then show ?case by auto
  next
    case (Cons x s)
    show ?case
    proof (cases "x = c")
      case True
      with Cons.prems have ps: "ps = [] # split_on c s" by simp
      have ne: "split_on c s \<noteq> []" by (cases s) (auto split: list.splits)
      from Cons.IH [OF refl] ps ne True show ?thesis by simp
    next
      case False
      obtain w ws where w: "split_on c s = w # ws"
        by (cases "split_on c s") (cases s; auto split: list.splits if_splits)+
      with Cons.prems False have ps: "ps = (x # w) # ws" by simp
      from Cons.IH [OF w] have "s = concat (map (\<lambda>p. p @ [c]) (butlast (w # ws))) @ last (w # ws)" .
      then show ?thesis using ps by (cases ws) auto
    qed
  qed
  assume "split_on c s = [a, b, d, e]"
  from gen [OF this] show ?thesis by simp
qed

lemma split_ws_acc_word:
  "cur \<noteq> [] \<Longrightarrow>
     split_ws_acc s cur =
       (rev cur @ takeWhile (\<lambda>c. \<not> is_space c) s)
         # split_ws_acc (dropWhile (\<lambda>c. \<not> is_space c) s) []"
proof (induction s arbitrary: cur)
  case Nil
  then show ?case by simp
next
  case (Cons c s)
  show ?case
  proof (cases "is_space c")
    case True
    then show ?thesis using Cons.prems by simp
  next
    case False
    then show ?thesis using Cons.IH [of "c # cur"] by simp
  qed
qed

lemma split_ws_first:
  "index (split_ws s) 0 =
     (if dropWhile is_space s = [] then Inl IndexError
      else Inr (takeWhile (\<lambda>c. \<not> is_space c) (dropWhile is_space s)))"
proof (induction s)
  case Nil
  show ?case by (simp add: split_ws_def index_def)
next
  case (Cons c s)
  show ?case
  proof (cases "is_space c")
    case True
    then show ?thesis using Cons by (simp add: split_ws_def)
  next
    case False
    then show ?thesis
      using split_ws_acc_word [of "[c]" s] by (simp add: split_ws_def index_def)
  qed
qed

lemma split_eq_second:
  "index (split_on c l) 1 =
     (case dropWhile (\<lambda>x. x \<noteq> c) l of
        [] \<Rightarrow> Inl IndexError
      | _ # r \<Rightarrow> Inr (takeWhile (\<lambda>x. x \<noteq> c) r))"
proof (cases "dropWhile (\<lambda>x. x \<noteq> c) l")
  case Nil
  with split_on_takeWhile [of c l] have "split_on c l = [takeWhile (\<lambda>x. x \<noteq> c) l]" by simp
  then show ?thesis unfolding Nil by (simp add: index_def)
next
  case (Cons x r)
  with split_on_takeWhile [of c l]
  have "split_on c l = takeWhile (\<lambda>x. x \<noteq> c) l # split_on c r" by simp
  moreover from split_on_takeWhile [of c r]
  obtain rest where "split_on c r = takeWhile (\<lambda>x. x \<noteq> c) r # rest" by blast
  ultimately have "split_on c l = takeWhile (\<lambda>x. x \<noteq> c) l # takeWhile (\<lambda>x. x \<noteq> c) r # rest"
    by simp
  then show ?thesis unfolding Cons by (simp add: index_def)
qed

lemma strip_no_space: "list_all (\<lambda>c. \<not> is_space c) s \<Longrightarrow> strip s = s"
proof -
  assume a: "list_all (\<lambda>c. \<not> is_space c) s"
  have d: "dropWhile is_space t = t" if "list_all (\<lambda>c. \<not> is_space c) t" for t
    using that by (cases t) simp_all
  have "list_all (\<lambda>c. \<not> is_space c) (rev s)" using a by (simp add: list_all_iff)
  then have "dropWhile is_space (rev s) = rev s" by (rule d)
  with d [OF a] show ?thesis by (simp add: strip_def)
qed

lemma py_float_nonempty: "py_float f = Inr g \<Longrightarrow> f \<noteq> []"
  by (auto simp: py_float_def strip_def float_body_ok_def lower_def split: if_splits)

lemma floats_Inr: "floats ps = Inr fs \<Longrightarrow> list_all2 (\<lambda>p f. py_float p = Inr f) ps fs"
proof (induction ps arbitrary: fs)
  case Nil
  then show ?case by simp
next
  case (Cons p ps)
  from Cons.prems obtain f gs where "py_float p = Inr f" "floats ps = Inr gs" "fs = f # gs"
    by (auto split: sum.splits)
  with Cons.IH [of gs] show ?case by simp
qed

lemma not_space_eq: "\<not> is_space CHR ''=''" "\<not> is_space CHR ''/''"
  by (simp_all add: is_space_def)

lemma py_float_Inr: "py_float p = Inr f \<Longrightarrow> f = strip p"
  by (auto simp: py_float_def Let_def split: if_splits)

lemma unpack4_Inr:
  "unpack4 fs = Inr st \<Longrightarrow> fs = [rtt_min st, rtt_avg st, rtt_max st, rtt_mdev st]"
  by (auto simp: unpack4_def split: list.splits)

lemma parse_rtt_line_imp_shape:
  assumes sw: "startswith l ''rtt''" and p: "parse_rtt_line l = Inr st"
  shows "rtt_shape l st"
proof -
  let ?E = "\<lambda>x. x \<noteq> CHR ''=''"
  let ?NS = "\<lambda>c. \<not> is_space c"
  from p obtain seg where seg: "index (split_on CHR ''='' l) 1 = Inr seg"
    by (auto simp: parse_rtt_line_def split: sum.splits)
  from p seg obtain tok where tok: "index (split_ws seg) 0 = Inr tok"
    by (auto simp: parse_rtt_line_def split: sum.splits)
  from p seg tok obtain fs where fs: "floats (split_on CHR ''/'' tok) = Inr fs"
    and un: "unpack4 fs = Inr st"
    by (auto simp: parse_rtt_line_def split: sum.splits)
  \<comment> \<open>the equals sign\<close>
  from seg obtain x r where dl: "dropWhile ?E l = x # r" and seg_eq: "seg = takeWhile ?E r"
    unfolding split_eq_second by (auto split: list.splits)
  from dl have x: "x = CHR ''=''" and l1: "l = takeWhile ?E l @ x # r"
    by (auto simp: dropWhile_eq_Cons_conv)
  from sw have l3: "l = ''rtt'' @ drop 3 l"
    by (metis append_take_drop_id startswith_def length_Cons list.size(3) numeral_3_eq_3)
  define pre where "pre = takeWhile ?E (drop 3 l)"
  have "takeWhile ?E (''rtt'' @ drop 3 l) = ''rtt'' @ pre" by (simp add: pre_def)
  then have tw: "takeWhile ?E l = ''rtt'' @ pre" by (subst l3) (simp only:)
  have pre_ne: "CHR ''='' \<notin> set pre" unfolding pre_def by (auto dest: set_takeWhileD)
  define r2 where "r2 = dropWhile ?E r"
  have r_eq: "r = seg @ r2" by (simp add: seg_eq r2_def)
  \<comment> \<open>the first word after it\<close>
  from tok have dne: "dropWhile is_space seg \<noteq> []"
    and tok_eq: "tok = takeWhile ?NS (dropWhile is_space seg)"
    unfolding split_ws_first by (auto split: if_splits)
  define ws where "ws = takeWhile is_space seg"
  define t2 where "t2 = dropWhile ?NS (dropWhile is_space seg)"
  have seg_split: "seg = ws @ tok @ t2"
    unfolding ws_def tok_eq t2_def by simp
  have ws_sp: "list_all is_space ws" unfolding ws_def list_all_iff by (auto dest: set_takeWhileD)
  have tok_ns: "\<And>c. c \<in> set tok \<Longrightarrow> \<not> is_space c" unfolding tok_eq by (auto dest: set_takeWhileD)
  have seg_ne: "\<And>c. c \<in> set seg \<Longrightarrow> c \<noteq> CHR ''=''" unfolding seg_eq by (auto dest: set_takeWhileD)
  have tok_ne: "\<And>c. c \<in> set tok \<Longrightarrow> c \<noteq> CHR ''=''" using seg_ne seg_split by auto
  \<comment> \<open>the four floats\<close>
  let ?a = "rtt_min st" and ?b = "rtt_avg st" and ?c = "rtt_max st" and ?d = "rtt_mdev st"
  have fs_eq: "fs = [?a, ?b, ?c, ?d]" using un by (rule unpack4_Inr)
  from floats_Inr [OF fs] fs_eq obtain pa pb pc pd where
    parts: "split_on CHR ''/'' tok = [pa, pb, pc, pd]"
    and fl: "py_float pa = Inr ?a" "py_float pb = Inr ?b" "py_float pc = Inr ?c" "py_float pd = Inr ?d"
    by (auto simp: list_all2_Cons2)
  have tok_cat: "tok = pa @ CHR ''/'' # pb @ CHR ''/'' # pc @ CHR ''/'' # pd"
    using parts by (rule split_on_concat4)
  have part_ok: "list_all (\<lambda>c. \<not> is_space c \<and> c \<noteq> CHR ''/'' \<and> c \<noteq> CHR ''='') q"
    if "q \<in> set [pa, pb, pc, pd]" for q
  proof -
    from that parts have "q \<in> set (split_on CHR ''/'' tok)" by simp
    then have "CHR ''/'' \<notin> set q" by (rule split_on_no_sep)
    moreover have "set q \<subseteq> set tok" using that tok_cat by auto
    ultimately show ?thesis using tok_ns tok_ne by (auto simp: list_all_iff)
  qed
  have same: "f = q" if "q \<in> set [pa, pb, pc, pd]" "py_float q = Inr f" for q f
  proof -
    from part_ok [OF that(1)] have "list_all ?NS q" by (simp add: list_all_iff)
    then have "strip q = q" by (rule strip_no_space)
    with py_float_Inr [OF that(2)] show ?thesis by simp
  qed
  have eqs: "pa = ?a" "pb = ?b" "pc = ?c" "pd = ?d"
    using same [of pa ?a] same [of pb ?b] same [of pc ?c] same [of pd ?d] fl by simp_all
  \<comment> \<open>what follows the word\<close>
  define post where "post = t2 @ r2"
  have post_ok: "case post of [] \<Rightarrow> True | c # _ \<Rightarrow> is_space c \<or> c = CHR ''=''"
  proof (cases t2)
    case Nil
    show ?thesis
    proof (cases r2)
      case Nil
      with \<open>t2 = []\<close> show ?thesis by (simp add: post_def)
    next
      case (Cons c r3)
      then have "c = CHR ''=''" unfolding r2_def by (auto simp: dropWhile_eq_Cons_conv)
      with Cons \<open>t2 = []\<close> show ?thesis by (simp add: post_def)
    qed
  next
    case (Cons c t3)
    then have "is_space c" unfolding t2_def by (auto simp: dropWhile_eq_Cons_conv)
    with Cons show ?thesis by (simp add: post_def)
  qed
  have "l = (''rtt'' @ pre) @ CHR ''='' # (ws @ tok @ t2) @ r2"
    using l1 tw x r_eq seg_split by simp
  then have l_eq: "l = ''rtt'' @ pre @ ''='' @ ws @ ?a @ ''/'' @ ?b @ ''/'' @ ?c @ ''/'' @ ?d @ post"
    using tok_cat eqs by (simp add: post_def)
  have all_ok: "list_all (\<lambda>f. py_float f = Inr f
                  \<and> list_all (\<lambda>c. \<not> is_space c \<and> c \<noteq> CHR ''/'' \<and> c \<noteq> CHR ''='') f)
             [?a, ?b, ?c, ?d]"
    using fl part_ok eqs by simp
  show ?thesis unfolding rtt_shape_def
    using l_eq pre_ne ws_sp all_ok post_ok by blast
qed

lemma shape_imp_parse_rtt_line:
  assumes "rtt_shape l st"
  shows "parse_rtt_line l = Inr st"
proof -
  let ?E = "\<lambda>x. x \<noteq> CHR ''=''"
  let ?NS = "\<lambda>c. \<not> is_space c"
  let ?a = "rtt_min st" and ?b = "rtt_avg st" and ?c = "rtt_max st" and ?d = "rtt_mdev st"
  from assms [unfolded rtt_shape_def] obtain pre ws post where
    l_eq: "l = ''rtt'' @ pre @ ''='' @ ws @ ?a @ ''/'' @ ?b @ ''/'' @ ?c @ ''/'' @ ?d @ post"
    and pre_ne: "CHR ''='' \<notin> set pre"
    and ws_sp: "list_all is_space ws"
    and all4: "list_all (\<lambda>f. py_float f = Inr f
                  \<and> list_all (\<lambda>c. \<not> is_space c \<and> c \<noteq> CHR ''/'' \<and> c \<noteq> CHR ''='') f)
             [?a, ?b, ?c, ?d]"
    and post_ok: "case post of [] \<Rightarrow> True | c # _ \<Rightarrow> is_space c \<or> c = CHR ''=''"
    by blast
  from all4 have fl: "py_float ?a = Inr ?a" "py_float ?b = Inr ?b" "py_float ?c = Inr ?c"
      "py_float ?d = Inr ?d"
    and ch: "list_all (\<lambda>c. \<not> is_space c \<and> c \<noteq> CHR ''/'' \<and> c \<noteq> CHR ''='') ?a"
            "list_all (\<lambda>c. \<not> is_space c \<and> c \<noteq> CHR ''/'' \<and> c \<noteq> CHR ''='') ?b"
            "list_all (\<lambda>c. \<not> is_space c \<and> c \<noteq> CHR ''/'' \<and> c \<noteq> CHR ''='') ?c"
            "list_all (\<lambda>c. \<not> is_space c \<and> c \<noteq> CHR ''/'' \<and> c \<noteq> CHR ''='') ?d"
    by simp_all
  define tok where "tok = ?a @ CHR ''/'' # ?b @ CHR ''/'' # ?c @ CHR ''/'' # ?d"
  define head where "head = ''rtt'' @ pre"
  have l2: "l = head @ CHR ''='' # (ws @ tok @ post)" using l_eq by (simp add: tok_def head_def)
  have head_ne: "\<And>c. c \<in> set head \<Longrightarrow> c \<noteq> CHR ''=''" using pre_ne by (auto simp: head_def)
  have tok_ns: "\<And>c. c \<in> set tok \<Longrightarrow> \<not> is_space c"
    using ch not_space_eq by (auto simp: tok_def list_all_iff)
  have tok_ne: "c \<noteq> CHR ''=''" if "c \<in> set tok" for c
  proof -
    from that have "c \<in> set ?a \<or> c \<in> set ?b \<or> c \<in> set ?c \<or> c \<in> set ?d \<or> c = CHR ''/''"
      by (auto simp: tok_def)
    then show ?thesis
    proof (elim disjE)
      assume "c \<in> set ?a" then show ?thesis using ch(1) by (simp add: list_all_iff)
    next
      assume "c \<in> set ?b" then show ?thesis using ch(2) by (simp add: list_all_iff)
    next
      assume "c \<in> set ?c" then show ?thesis using ch(3) by (simp add: list_all_iff)
    next
      assume "c \<in> set ?d" then show ?thesis using ch(4) by (simp add: list_all_iff)
    next
      assume "c = CHR ''/''" then show ?thesis by simp
    qed
  qed
  have ws_ne: "\<And>c. c \<in> set ws \<Longrightarrow> c \<noteq> CHR ''=''"
    using ws_sp not_space_eq by (auto simp: list_all_iff)
  have ws_sp': "\<And>c. c \<in> set ws \<Longrightarrow> is_space c" using ws_sp by (simp add: list_all_iff)
  have tok_nonempty: "tok \<noteq> []" by (simp add: tok_def)
  \<comment> \<open>\<open>rtt_line.split('=')[1]\<close>\<close>
  have "dropWhile ?E l = CHR ''='' # (ws @ tok @ post)"
    unfolding l2 using head_ne by (simp add: dropWhile_append3)
  then have seg: "index (split_on CHR ''='' l) 1 = Inr (takeWhile ?E (ws @ tok @ post))"
    unfolding split_eq_second by simp
  define tp where "tp = takeWhile ?E post"
  have seg_eq: "takeWhile ?E (ws @ tok @ post) = ws @ tok @ tp"
    using ws_ne tok_ne by (simp add: tp_def takeWhile_append2)
  \<comment> \<open>\<open>.split()[0]\<close>\<close>
  have d1: "dropWhile is_space (ws @ tok @ tp) = tok @ tp"
  proof -
    have "dropWhile is_space (ws @ (tok @ tp)) = dropWhile is_space (tok @ tp)"
      using ws_sp' by (simp add: dropWhile_append2)
    also have "\<dots> = tok @ tp" using tok_nonempty tok_ns by (cases tok) simp_all
    finally show ?thesis by simp
  qed
  have tp_first: "takeWhile ?NS tp = []"
  proof (cases post)
    case Nil
    then show ?thesis by (simp add: tp_def)
  next
    case (Cons c post')
    with post_ok have "is_space c \<or> c = CHR ''=''" by simp
    then show ?thesis using Cons by (auto simp: tp_def)
  qed
  have "takeWhile ?NS (tok @ tp) = tok @ takeWhile ?NS tp"
    using tok_ns by (simp add: takeWhile_append2)
  then have t1: "takeWhile ?NS (tok @ tp) = tok" using tp_first by simp
  have word: "index (split_ws (ws @ tok @ tp)) 0 = Inr tok"
    unfolding split_ws_first d1 using tok_nonempty t1 by simp
  \<comment> \<open>\<open>parts.split('/')\<close> and the floats\<close>
  have na: "CHR ''/'' \<notin> set ?a" "CHR ''/'' \<notin> set ?b" "CHR ''/'' \<notin> set ?c" "CHR ''/'' \<notin> set ?d"
    using ch by (auto simp: list_all_iff)
  have "split_on CHR ''/'' tok = [?a, ?b, ?c, ?d]"
    unfolding tok_def using na by (simp add: split_on_append split_on_none)
  then have "floats (split_on CHR ''/'' tok) = Inr [?a, ?b, ?c, ?d]" using fl by simp
  moreover have "unpack4 [?a, ?b, ?c, ?d] = Inr st" by (simp add: unpack4_def)
  ultimately show ?thesis using seg seg_eq word by (simp add: parse_rtt_line_def)
qed

lemma shape_startswith: "rtt_shape l st \<Longrightarrow> startswith l ''rtt''"
proof -
  assume "rtt_shape l st"
  then obtain rest where "l = ''rtt'' @ rest" unfolding rtt_shape_def by blast
  then show ?thesis by (simp add: startswith_def)
qed

lemma parse_rtt_line_iff_shape:
  "startswith l ''rtt'' \<Longrightarrow> parse_rtt_line l = Inr st \<longleftrightarrow> rtt_shape l st"
  using parse_rtt_line_imp_shape shape_imp_parse_rtt_line by blast

lemma ping_from_node_no_line:
  assumes "find (\<lambda>l. startswith l ''rtt'') (splitlines out) = None"
  shows "ping_from_node (Output out) = No_rtt"
  using assms by (simp add: ping_from_node_def)

lemma ping_from_node_line:
  assumes "find (\<lambda>l. startswith l ''rtt'') (splitlines out) = Some l"
  shows "ping_from_node (Output out) =
           (case parse_rtt_line l of Inl e \<Rightarrow> Exception | Inr stats \<Rightarrow> Ok stats)"
  using assms rtt_line_contains [OF assms] by (simp add: ping_from_node_def)

text \<open>
  C6, as amended.  When the remote command succeeds, the outcome is decided by the
  first line of the output that begins with \<open>rtt\<close>: it is \<open>ok\<close> with the four
  floats exactly when that line has the shape \<open>rtt ... = MIN/AVG/MAX/MDEV ...\<close>; it is
  \<open>no_rtt\<close> exactly when no line begins with \<open>rtt\<close>; and it is \<open>exception\<close>
  exactly when the first such line does not have the shape.
\<close>

theorem ping_from_node_first_rtt_line:
  "(ping_from_node (Output out) = Ok st \<longleftrightarrow>
      (\<exists>l. find (\<lambda>l. startswith l ''rtt'') (splitlines out) = Some l \<and> rtt_shape l st))
   \<and> (ping_from_node (Output out) = No_rtt \<longleftrightarrow>
      find (\<lambda>l. startswith l ''rtt'') (splitlines out) = None)
   \<and> (ping_from_node (Output out) = Exception \<longleftrightarrow>
      (\<exists>l. find (\<lambda>l. startswith l ''rtt'') (splitlines out) = Some l
           \<and> \<not> (\<exists>st. rtt_shape l st)))"
proof (cases "find (\<lambda>l. startswith l ''rtt'') (splitlines out)")
  case None
  from ping_from_node_no_line [OF None] None show ?thesis by simp
next
  case (Some l)
  then have sw: "startswith l ''rtt''" by (auto simp: find_Some_iff)
  note run = ping_from_node_line [OF Some]
  show ?thesis
  proof (cases "parse_rtt_line l")
    case (Inl e)
    then have "\<not> (\<exists>st. rtt_shape l st)"
      using parse_rtt_line_iff_shape [OF sw] by auto
    with run Inl Some show ?thesis by auto
  next
    case (Inr st')
    then have "rtt_shape l st \<longleftrightarrow> st = st'" for st
      using parse_rtt_line_iff_shape [OF sw, of st] by auto
    with run Inr Some show ?thesis by auto
  qed
qed

lemma ex_parse_rtt: 
  "parse_rtt_line ''rtt min/avg/max/mdev = 10.1/11.2/12.3/0.5 ms''
     = Inr \<lparr>rtt_min = ''10.1'', rtt_avg = ''11.2'', rtt_max = ''12.3'', rtt_mdev = ''0.5''\<rparr>"
  by code_simp

lemma ex_parse_rtt_bad: "parse_rtt_line ''rtt'' = Inl IndexError"
  by code_simp

text \<open>
  C6, as stated, fails.  For the output \<open>rtt\<close> no line has the shape, and the
  outcome is \<open>exception\<close>, not \<open>no_rtt\<close>.  For an output whose first line is
  \<open>rtt\<close> and whose second line has the shape, the outcome is \<open>exception\<close>, not
  \<open>ok\<close>.
\<close>

theorem ping_from_node_malformed_rtt_counterexample:
  "ping_from_node (Output ''rtt'') = Exception
   \<and> \<not> (\<exists>l st. l \<in> set (splitlines ''rtt'') \<and> rtt_shape l st)
   \<and> ping_from_node
        (Output ''rtt\<newline>rtt min/avg/max/mdev = 10.1/11.2/12.3/0.5 ms\<newline>'') = Exception
   \<and> ''rtt min/avg/max/mdev = 10.1/11.2/12.3/0.5 ms''
        \<in> set (splitlines ''rtt\<newline>rtt min/avg/max/mdev = 10.1/11.2/12.3/0.5 ms\<newline>'')
   \<and> rtt_shape ''rtt min/avg/max/mdev = 10.1/11.2/12.3/0.5 ms''
        \<lparr>rtt_min = ''10.1'', rtt_avg = ''11.2'', rtt_max = ''12.3'', rtt_mdev = ''0.5''\<rparr>"
proof -
  have a: "ping_from_node (Output ''rtt'') = Exception" by code_simp
  have lines: "splitlines ''rtt'' = [''rtt'']" by code_simp
  have "\<not> rtt_shape ''rtt'' st" for st
    using shape_imp_parse_rtt_line [of "''rtt''" st] ex_parse_rtt_bad by auto
  then have b: "\<not> (\<exists>l st. l \<in> set (splitlines ''rtt'') \<and> rtt_shape l st)"
    unfolding lines by simp
  have c: "ping_from_node
        (Output ''rtt\<newline>rtt min/avg/max/mdev = 10.1/11.2/12.3/0.5 ms\<newline>'') = Exception"
    by code_simp
  have d: "''rtt min/avg/max/mdev = 10.1/11.2/12.3/0.5 ms''
        \<in> set (splitlines ''rtt\<newline>rtt min/avg/max/mdev = 10.1/11.2/12.3/0.5 ms\<newline>'')"
    by code_simp
  have sw: "startswith ''rtt min/avg/max/mdev = 10.1/11.2/12.3/0.5 ms'' ''rtt''"
    by code_simp
  have e: "rtt_shape ''rtt min/avg/max/mdev = 10.1/11.2/12.3/0.5 ms''
        \<lparr>rtt_min = ''10.1'', rtt_avg = ''11.2'', rtt_max = ''12.3'', rtt_mdev = ''0.5''\<rparr>"
    by (rule parse_rtt_line_imp_shape [OF sw ex_parse_rtt])
  from a b c d e show ?thesis by (intro conjI)
qed

end
